theory Spec2Isabelle
  imports Main "HOL-Library.Word"
begin

section \<open>The Iterator protocol\<close>

text \<open>
  A Go interface value of type \<open>Iterator[T]\<close> is a pair of a dynamic type (its method table)
  and the state the methods work on. The model keeps both in one record: \<open>self\<close> is the
  state of the object, \<open>next_impl\<close> is its \<open>Next\<close> method, and \<open>count_impl\<close> is its
  \<open>Count\<close> method when the dynamic type also implements \<open>Counter[T]\<close> (\<open>None\<close> when the type
  assertion \<open>from.(Counter[T])\<close> fails).

  Methods mutate the object behind the pointer; here they take the state and return the
  new one. The pair \<open>(T, bool)\<close> that \<open>Next\<close> returns is an \<open>option\<close>: \<open>None\<close> is
  \<open>ok = false\<close>. A call that does not return (a loop over an endless upstream, a receive
  on a channel nobody sends to) is the outer \<open>None\<close>.

  Element counts and the allowance of \<open>Take\<close> are Go \<open>int\<close>s, modelled as \<open>int\<close>: a
  count is incremented once per pulled item, and the allowance is only decremented
  while positive, so neither wraps in a run that returns. The items of \<open>Range\<close>,
  \<open>Sum\<close>, \<open>Min\<close> and \<open>Max\<close> are of a type parameter; the types it ranges over are
  modelled below.
\<close>

record ('s, 'a) Iterator =
  self :: 's
  next_impl :: "'s \<Rightarrow> ('a option \<times> 's) option"
  count_impl :: "('s \<Rightarrow> (int \<times> 's) option) option"

definition Next :: "('s, 'a) Iterator \<Rightarrow> ('a option \<times> ('s, 'a) Iterator) option" where
  "Next iter =
     (case next_impl iter (self iter) of
        None \<Rightarrow> None
      | Some (item, s') \<Rightarrow> Some (item, iter\<lparr>self := s'\<rparr>))"

subsection \<open>Sources (iterator.go)\<close>

text \<open>\<open>Empty\<close>: \<open>emptyIterator\<close> is a struct without fields.\<close>

definition emptyIterator_Next :: "unit \<Rightarrow> ('a option \<times> unit) option" where
  "emptyIterator_Next iter = Some (None, iter)"

definition Empty :: "(unit, 'a) Iterator" where
  "Empty = \<lparr>self = (), next_impl = emptyIterator_Next, count_impl = None\<rparr>"

text \<open>\<open>Once\<close>: the field is a pointer to the item, nil after the item was returned.\<close>

record 'a onceIterator =
  once_item :: "'a option"

definition onceIterator_Next :: "'a onceIterator \<Rightarrow> ('a option \<times> 'a onceIterator) option" where
  "onceIterator_Next iter =
     (case once_item iter of
        Some item \<Rightarrow> Some (Some item, iter\<lparr>once_item := None\<rparr>)
      | None \<Rightarrow> Some (None, iter))"

definition Once :: "'a \<Rightarrow> ('a onceIterator, 'a) Iterator" where
  "Once item =
     \<lparr>self = \<lparr>once_item = Some item\<rparr>, next_impl = onceIterator_Next, count_impl = None\<rparr>"

text \<open>\<open>Repeat\<close>\<close>

record 'a repeatIterator =
  repeat_item :: 'a

definition repeatIterator_Next :: "'a repeatIterator \<Rightarrow> ('a option \<times> 'a repeatIterator) option" where
  "repeatIterator_Next iter = Some (Some (repeat_item iter), iter)"

definition Repeat :: "'a \<Rightarrow> ('a repeatIterator, 'a) Iterator" where
  "Repeat item =
     \<lparr>self = \<lparr>repeat_item = item\<rparr>, next_impl = repeatIterator_Next, count_impl = None\<rparr>"

text \<open>
  \<open>Range\<close> is generic: \<open>T Number\<close> is any integer or floating-point type
  (constraints.go), and \<open>Sum\<close>, \<open>Min\<close>, \<open>Max\<close> are generic in the same way. An operator of
  Go at the type parameter, \<open>+\<close>, \<open><\<close>, \<open><=\<close>, or the constant \<open>0\<close>, is the operation of the
  same name of Isabelle's type classes \<open>plus\<close>, \<open>ord\<close>, \<open>zero\<close> at the type that stands for
  \<open>T\<close>:

  \<^item> an unsigned integer type of \<open>w\<close> bits (\<open>uint8\<close> to \<open>uint64\<close>, \<open>uint\<close>, \<open>uintptr\<close>) is
    \<open>'w word\<close>: \<open>+\<close> wraps around and the order is that of the values \<open>unat\<close>;
  \<^item> a signed integer type of \<open>w\<close> bits (\<open>int8\<close> to \<open>int64\<close>, \<open>int\<close>) is \<open>'w sword\<close>, the same
    bits compared as two's complement numbers (\<open><s\<close>, \<open>\<le>s\<close>), with the same wrapping \<open>+\<close>;
  \<^item> \<open>float64\<close> is the type \<open>float64\<close> below;
  \<^item> \<open>string\<close> and the unbounded \<open>int\<close> of the examples are the types of HOL.
\<close>

typedef (overloaded) ('w::len) sword = "UNIV :: 'w word set"
  morphisms sbits SInt ..

instantiation sword :: (len) "{ord, plus, zero}"
begin

definition less_eq_sword :: "'a sword \<Rightarrow> 'a sword \<Rightarrow> bool" where
  "less_eq_sword a b = (sbits a \<le>s sbits b)"

definition less_sword :: "'a sword \<Rightarrow> 'a sword \<Rightarrow> bool" where
  "less_sword a b = (sbits a <s sbits b)"

definition plus_sword :: "'a sword \<Rightarrow> 'a sword \<Rightarrow> 'a sword" where
  "plus_sword a b = SInt (sbits a + sbits b)"

definition zero_sword :: "'a sword" where
  "zero_sword = SInt 0"

instance ..

end

text \<open>
  A \<open>float64\<close> is a NaN, an infinity, or a finite number. Every finite number of the
  format is a whole multiple of \<open>2\<^sup>-\<^sup>1\<^sup>0\<^sup>7\<^sup>4\<close>, the least positive one: \<open>Fin k\<close> is the number
  \<open>k * 2\<^sup>-\<^sup>1\<^sup>0\<^sup>7\<^sup>4\<close>, so \<open>1.0\<close> is \<open>Fin (2 ^ 1074)\<close>. The two zeros, which \<open>+\<close> and the
  comparisons do not tell apart, are both \<open>Fin 0\<close>.

  The sum of two finite numbers is their exact sum rounded to 53 significant bits, to
  the nearer neighbour and to the one with an even last bit in a tie (\<open>round64\<close>, with
  \<open>bits a\<close> the length of \<open>a\<close> in binary); a rounded sum of \<open>2\<^sup>1\<^sup>0\<^sup>2\<^sup>4\<close> or more is an infinity.
  A comparison with a NaN is false.
\<close>

datatype float64 = NaN | NInf | Fin int | PInf

function bits :: "int \<Rightarrow> nat" where
  "bits a = (if a \<le> 0 then 0 else Suc (bits (a div 2)))"
  by pat_completeness auto

termination
  by (relation "measure nat") auto

declare bits.simps [simp del]

definition round64 :: "int \<Rightarrow> float64" where
  "round64 k =
     (let a = \<bar>k\<bar>;
          sh = bits a - 53;
          q = a div 2 ^ sh;
          r = a mod 2 ^ sh;
          q' = (if 2 * r < 2 ^ sh \<or> (2 * r = 2 ^ sh \<and> even q) then q else q + 1);
          a' = q' * 2 ^ sh
      in if 2 ^ 2098 \<le> a' then (if k < 0 then NInf else PInf)
         else Fin (if k < 0 then - a' else a'))"

fun float64_add :: "float64 \<Rightarrow> float64 \<Rightarrow> float64" where
  "float64_add (Fin a) (Fin b) = round64 (a + b)"
| "float64_add NaN y = NaN"
| "float64_add x NaN = NaN"
| "float64_add PInf NInf = NaN"
| "float64_add NInf PInf = NaN"
| "float64_add PInf y = PInf"
| "float64_add x PInf = PInf"
| "float64_add NInf y = NInf"
| "float64_add x NInf = NInf"

fun float64_less :: "float64 \<Rightarrow> float64 \<Rightarrow> bool" where
  "float64_less (Fin a) (Fin b) = (a < b)"
| "float64_less NaN y = False"
| "float64_less x NaN = False"
| "float64_less x NInf = False"
| "float64_less PInf y = False"
| "float64_less NInf y = True"
| "float64_less x PInf = True"

instantiation float64 :: "{ord, plus, zero}"
begin

definition less_float64 :: "float64 \<Rightarrow> float64 \<Rightarrow> bool" where
  "less_float64 x y = float64_less x y"

definition less_eq_float64 :: "float64 \<Rightarrow> float64 \<Rightarrow> bool" where
  "less_eq_float64 x y = (float64_less x y \<or> (x = y \<and> x \<noteq> NaN))"

definition plus_float64 :: "float64 \<Rightarrow> float64 \<Rightarrow> float64" where
  "plus_float64 x y = float64_add x y"

definition zero_float64 :: "float64" where
  "zero_float64 = Fin 0"

instance ..

end

text \<open>The conversion \<open>float64(n)\<close> of an integer.\<close>

definition float64_of_int :: "int \<Rightarrow> float64" where
  "float64_of_int n = round64 (n * 2 ^ 1074)"

text \<open>
  \<open>Range\<close>. The test \<open>iter.start >= iter.end\<close> of \<open>Next\<close> is \<open>range_end iter \<le> range_start iter\<close>.
  A panic is the left summand.
\<close>

record 'a rangeIterator =
  range_start :: 'a
  range_end :: 'a
  range_step :: 'a

definition rangeIterator_Next ::
  "('a::{ord,plus}) rangeIterator \<Rightarrow> ('a option \<times> 'a rangeIterator) option" where
  "rangeIterator_Next iter =
     (if range_start iter \<ge> range_end iter then Some (None, iter)
      else Some (Some (range_start iter),
                 iter\<lparr>range_start := range_start iter + range_step iter\<rparr>))"


text \<open>\<open>FromSlice\<close>\<close>

record 'a sliceIterator =
  slice :: "'a list"

definition sliceIterator_Next :: "'a sliceIterator \<Rightarrow> ('a option \<times> 'a sliceIterator) option" where
  "sliceIterator_Next iter =
     (case slice iter of
        [] \<Rightarrow> Some (None, iter)
      | item # rest \<Rightarrow> Some (Some item, iter\<lparr>slice := rest\<rparr>))"

definition FromSlice :: "'a list \<Rightarrow> ('a sliceIterator, 'a) Iterator" where
  "FromSlice xs = \<lparr>self = \<lparr>slice = xs\<rparr>, next_impl = sliceIterator_Next, count_impl = None\<rparr>"

text \<open>
  \<open>FromChannel\<close>, seen from the receiving goroutine alone: a channel is the queue of the
  items already sent and the flag that it was closed. A receive takes the oldest item;
  on an empty closed channel it reports \<open>ok = false\<close>; on an empty open channel it
  blocks, and with no sender in the model it never returns.
\<close>

record 'a chan =
  chan_queue :: "'a list"
  chan_closed :: bool

definition recv :: "'a chan \<Rightarrow> ('a option \<times> 'a chan) option" where
  "recv c =
     (case chan_queue c of
        item # rest \<Rightarrow> Some (Some item, c\<lparr>chan_queue := rest\<rparr>)
      | [] \<Rightarrow> if chan_closed c then Some (None, c) else None)"

definition channelIterator_Next :: "'a chan \<Rightarrow> ('a option \<times> 'a chan) option" where
  "channelIterator_Next iter = recv iter"

definition FromChannel :: "'a chan \<Rightarrow> ('a chan, 'a) Iterator" where
  "FromChannel c = \<lparr>self = c, next_impl = channelIterator_Next, count_impl = None\<rparr>"

text \<open>
  \<open>ToSlice\<close>. The loop of the source is the recursion; the iterator is returned with
  the slice, since the caller's handle has been advanced.
\<close>

partial_function (option) ToSlice_loop ::
  "('s, 'a) Iterator \<Rightarrow> 'a list \<Rightarrow> ('a list \<times> ('s, 'a) Iterator) option" where
  "ToSlice_loop frm slice' =
     (case Next frm of
        None \<Rightarrow> None
      | Some (None, frm') \<Rightarrow> Some (slice', frm')
      | Some (Some item, frm') \<Rightarrow> ToSlice_loop frm' (slice' @ [item]))"

declare ToSlice_loop.simps [code]

definition ToSlice :: "('s, 'a) Iterator \<Rightarrow> ('a list \<times> ('s, 'a) Iterator) option" where
  "ToSlice frm = ToSlice_loop frm []"

text \<open>\<open>ToMap\<close> and \<open>MapEntry\<close>\<close>

record ('k, 'v) MapEntry =
  Key :: 'k
  Val :: 'v

partial_function (option) ToMap_loop ::
  "('s, ('k, 'v) MapEntry) Iterator \<Rightarrow> ('k \<rightharpoonup> 'v) \<Rightarrow>
   (('k \<rightharpoonup> 'v) \<times> ('s, ('k, 'v) MapEntry) Iterator) option" where
  "ToMap_loop frm out =
     (case Next frm of
        None \<Rightarrow> None
      | Some (None, frm') \<Rightarrow> Some (out, frm')
      | Some (Some item, frm') \<Rightarrow> ToMap_loop frm' (out(Key item \<mapsto> Val item)))"

declare ToMap_loop.simps [code]

definition ToMap ::
  "('s, ('k, 'v) MapEntry) Iterator \<Rightarrow> (('k \<rightharpoonup> 'v) \<times> ('s, ('k, 'v) MapEntry) Iterator) option" where
  "ToMap frm = ToMap_loop frm Map.empty"

subsection \<open>Consumers (ops.go)\<close>

text \<open>
  The sources hold several revisions of ops.go. \<open>Reduce\<close>, \<open>Sum\<close>, \<open>Min\<close>, \<open>Max\<close>, \<open>Filter\<close>,
  \<open>FilterMap\<close> and the \<open>Next\<close> methods are the same in all of them. \<open>Count\<close>, \<open>Counter\<close> and the
  \<open>Count\<close> methods of \<open>Map\<close>, \<open>Flatten\<close> and \<open>Take\<close> are those of the revision that introduces
  \<open>Counter\<close>; there the sources (\<open>Empty\<close>, \<open>Once\<close>, \<open>Range\<close>, \<open>FromSlice\<close>, \<open>FromChannel\<close>) and
  \<open>Filter\<close>, \<open>FilterMap\<close> have no \<open>Count\<close> method.
\<close>

partial_function (option) Reduce ::
  "('s, 'a) Iterator \<Rightarrow> ('o \<Rightarrow> 'a \<Rightarrow> 'o) \<Rightarrow> 'o \<Rightarrow> ('o \<times> ('s, 'a) Iterator) option" where
  "Reduce frm reduceFunc accum =
     (case Next frm of
        None \<Rightarrow> None
      | Some (None, frm') \<Rightarrow> Some (accum, frm')
      | Some (Some item, frm') \<Rightarrow> Reduce frm' reduceFunc (reduceFunc accum item))"

declare Reduce.simps [code]

text \<open>
  \<open>Count\<close> first asks whether the iterator is a \<open>Counter\<close> and calls its \<open>Count\<close> method if
  so; otherwise it pulls until \<open>Next\<close> reports false. \<open>Counter_Count counter frm\<close> is the
  method call \<open>counter.Count()\<close> on the object \<open>frm\<close>.
\<close>

partial_function (option) Count_loop ::
  "('s, 'a) Iterator \<Rightarrow> int \<Rightarrow> (int \<times> ('s, 'a) Iterator) option" where
  "Count_loop frm count =
     (case Next frm of
        None \<Rightarrow> None
      | Some (None, frm') \<Rightarrow> Some (count, frm')
      | Some (Some item, frm') \<Rightarrow> Count_loop frm' (count + 1))"

declare Count_loop.simps [code]

definition Counter_Count ::
  "('s \<Rightarrow> (int \<times> 's) option) \<Rightarrow> ('s, 'a) Iterator \<Rightarrow> (int \<times> ('s, 'a) Iterator) option" where
  "Counter_Count counter frm =
     (case counter (self frm) of
        None \<Rightarrow> None
      | Some (n, s') \<Rightarrow> Some (n, frm\<lparr>self := s'\<rparr>))"

definition Count :: "('s, 'a) Iterator \<Rightarrow> (int \<times> ('s, 'a) Iterator) option" where
  "Count frm =
     (case count_impl frm of
        Some counter \<Rightarrow> Counter_Count counter frm
      | None \<Rightarrow> Count_loop frm 0)"

definition Sum_it :: "('s, 'a::{plus,zero}) Iterator \<Rightarrow> ('a \<times> ('s, 'a) Iterator) option" where
  "Sum_it frm = Reduce frm (\<lambda>accum item. accum + item) 0"

text \<open>
  \<open>Min\<close> and \<open>Max\<close> return \<open>(T, bool)\<close>: again an \<open>option\<close>. The element type is ordered
  (\<open>constraints.Ordered\<close>: the integer and floating-point types and \<open>string\<close>), and \<open><\<close> is
  the comparison of that type.
\<close>

definition Min_it :: "('s, 'a::ord) Iterator \<Rightarrow> ('a option \<times> ('s, 'a) Iterator) option" where
  "Min_it frm =
     (case Next frm of
        None \<Rightarrow> None
      | Some (None, frm') \<Rightarrow> Some (None, frm')
      | Some (Some init, frm') \<Rightarrow>
          (case Reduce frm' (\<lambda>accum item. if item < accum then item else accum) init of
             None \<Rightarrow> None
           | Some (min', frm'') \<Rightarrow> Some (Some min', frm'')))"

definition Max_it :: "('s, 'a::ord) Iterator \<Rightarrow> ('a option \<times> ('s, 'a) Iterator) option" where
  "Max_it frm =
     (case Next frm of
        None \<Rightarrow> None
      | Some (None, frm') \<Rightarrow> Some (None, frm')
      | Some (Some init, frm') \<Rightarrow>
          (case Reduce frm' (\<lambda>accum item. if item > accum then item else accum) init of
             None \<Rightarrow> None
           | Some (max', frm'') \<Rightarrow> Some (Some max', frm'')))"

subsection \<open>Adapters (ops.go)\<close>

text \<open>
  \<open>Map\<close>. A function value passed to \<open>Map\<close> is a HOL function into \<open>option\<close>, \<open>None\<close> when
  the call does not return: \<open>flattenIterator.Count\<close> below passes a closure that calls
  \<open>Count\<close>, which need not return. A Go function \<open>f\<close> that always returns is
  \<open>\<lambda>x. Some (f x)\<close>. The functions given to the other adapters and to \<open>Reduce\<close> are
  taken to return always and to have no effect but their result, as the doc comments ask.
\<close>

record ('s, 'a, 'o) mapIterator =
  map_from :: "('s, 'a) Iterator"
  mapFunc :: "'a \<Rightarrow> 'o option"

definition mapIterator_Next ::
  "('s, 'a, 'o) mapIterator \<Rightarrow> ('o option \<times> ('s, 'a, 'o) mapIterator) option" where
  "mapIterator_Next iter =
     (case Next (map_from iter) of
        None \<Rightarrow> None
      | Some (None, frm') \<Rightarrow> Some (None, iter\<lparr>map_from := frm'\<rparr>)
      | Some (Some item, frm') \<Rightarrow>
          (case mapFunc iter item of
             None \<Rightarrow> None
           | Some mapped \<Rightarrow> Some (Some mapped, iter\<lparr>map_from := frm'\<rparr>)))"

definition mapIterator_Count ::
  "('s, 'a, 'o) mapIterator \<Rightarrow> (int \<times> ('s, 'a, 'o) mapIterator) option" where
  "mapIterator_Count iter =
     (case Count (map_from iter) of
        None \<Rightarrow> None
      | Some (n, frm') \<Rightarrow> Some (n, iter\<lparr>map_from := frm'\<rparr>))"

definition Map ::
  "('s, 'a) Iterator \<Rightarrow> ('a \<Rightarrow> 'o option) \<Rightarrow> (('s, 'a, 'o) mapIterator, 'o) Iterator" where
  "Map frm f =
     \<lparr>self = \<lparr>map_from = frm, mapFunc = f\<rparr>,
      next_impl = mapIterator_Next, count_impl = Some mapIterator_Count\<rparr>"

text \<open>\<open>FilterMap\<close>: the function returns the mapped item and the bit that keeps it.\<close>

record ('s, 'a, 'o) filterMapIterator =
  filterMap_from :: "('s, 'a) Iterator"
  filterMap_mapFunc :: "'a \<Rightarrow> 'o \<times> bool"

partial_function (option) filterMapIterator_Next ::
  "('s, 'a, 'o) filterMapIterator \<Rightarrow> ('o option \<times> ('s, 'a, 'o) filterMapIterator) option" where
  "filterMapIterator_Next iter =
     (case Next (filterMap_from iter) of
        None \<Rightarrow> None
      | Some (None, frm') \<Rightarrow> Some (None, iter\<lparr>filterMap_from := frm'\<rparr>)
      | Some (Some item, frm') \<Rightarrow>
          (case filterMap_mapFunc iter item of
             (mapped, ok) \<Rightarrow>
               if ok then Some (Some mapped, iter\<lparr>filterMap_from := frm'\<rparr>)
               else filterMapIterator_Next (iter\<lparr>filterMap_from := frm'\<rparr>)))"

declare filterMapIterator_Next.simps [code]

definition FilterMap ::
  "('s, 'a) Iterator \<Rightarrow> ('a \<Rightarrow> 'o \<times> bool) \<Rightarrow> (('s, 'a, 'o) filterMapIterator, 'o) Iterator" where
  "FilterMap frm f =
     \<lparr>self = \<lparr>filterMap_from = frm, filterMap_mapFunc = f\<rparr>,
      next_impl = filterMapIterator_Next, count_impl = None\<rparr>"

text \<open>\<open>Filter\<close>\<close>

record ('s, 'a) filterIterator =
  filter_from :: "('s, 'a) Iterator"
  filterFunc :: "'a \<Rightarrow> bool"

partial_function (option) filterIterator_Next ::
  "('s, 'a) filterIterator \<Rightarrow> ('a option \<times> ('s, 'a) filterIterator) option" where
  "filterIterator_Next iter =
     (case Next (filter_from iter) of
        None \<Rightarrow> None
      | Some (None, frm') \<Rightarrow> Some (None, iter\<lparr>filter_from := frm'\<rparr>)
      | Some (Some item, frm') \<Rightarrow>
          if filterFunc iter item then Some (Some item, iter\<lparr>filter_from := frm'\<rparr>)
          else filterIterator_Next (iter\<lparr>filter_from := frm'\<rparr>))"

declare filterIterator_Next.simps [code]

definition Filter ::
  "('s, 'a) Iterator \<Rightarrow> ('a \<Rightarrow> bool) \<Rightarrow> (('s, 'a) filterIterator, 'a) Iterator" where
  "Filter frm p =
     \<lparr>self = \<lparr>filter_from = frm, filterFunc = p\<rparr>,
      next_impl = filterIterator_Next, count_impl = None\<rparr>"

text \<open>
  \<open>Flatten\<close> as in ops.go: every item of the outer iterator is turned into an inner
  iterator by \<open>mapFunc\<close>. \<open>head\<close> is the inner iterator being read, \<open>None\<close> for nil. One
  round of the \<open>for\<close> loop either sets \<open>head\<close> and goes on to read it, or reads it; the
  recursion takes these as two steps.
\<close>

record ('s, 'a, 't, 'o) flattenIterator =
  flatten_from :: "('s, 'a) Iterator"
  flatten_head :: "('t, 'o) Iterator option"
  flatten_mapFunc :: "'a \<Rightarrow> ('t, 'o) Iterator"

partial_function (option) flattenIterator_Next ::
  "('s, 'a, 't, 'o) flattenIterator \<Rightarrow> ('o option \<times> ('s, 'a, 't, 'o) flattenIterator) option" where
  "flattenIterator_Next iter =
     (case flatten_head iter of
        None \<Rightarrow>
          (case Next (flatten_from iter) of
             None \<Rightarrow> None
           | Some (None, frm') \<Rightarrow> Some (None, iter\<lparr>flatten_from := frm'\<rparr>)
           | Some (Some item, frm') \<Rightarrow>
               flattenIterator_Next
                 (iter\<lparr>flatten_from := frm', flatten_head := Some (flatten_mapFunc iter item)\<rparr>))
      | Some head \<Rightarrow>
          (case Next head of
             None \<Rightarrow> None
           | Some (Some item, head') \<Rightarrow> Some (Some item, iter\<lparr>flatten_head := Some head'\<rparr>)
           | Some (None, head') \<Rightarrow> flattenIterator_Next (iter\<lparr>flatten_head := None\<rparr>)))"

declare flattenIterator_Next.simps [code]

definition Flatten ::
  "('s, 'a) Iterator \<Rightarrow> ('a \<Rightarrow> ('t, 'o) Iterator) \<Rightarrow>
   (('s, 'a, 't, 'o) flattenIterator, 'o) Iterator" where
  "Flatten frm f =
     \<lparr>self = \<lparr>flatten_from = frm, flatten_head = None, flatten_mapFunc = f\<rparr>,
      next_impl = flattenIterator_Next, count_impl = None\<rparr>"

text \<open>
  \<open>Flatten\<close> as in the revision of ops.go that introduces \<open>Counter\<close>: the outer iterator
  yields the inner iterators themselves, and \<open>flattenIterator\<close> has a \<open>Count\<close> method. The
  names of this revision carry a \<open>C\<close>.

  \<open>Count\<close> maps \<open>Count\<close> over the remaining inner iterators and sums the results with
  \<open>Sum\<close>; the mapped iterator wraps \<open>iter.from\<close> itself, so \<open>iter.from\<close> is advanced with it.
  Then the inner iterator being read is counted, through the same pointer that \<open>head\<close>
  holds.
\<close>

record ('s, 't, 'o) flattenIteratorC =
  flattenC_from :: "('s, ('t, 'o) Iterator) Iterator"
  flattenC_head :: "('t, 'o) Iterator option"

partial_function (option) flattenIteratorC_Next ::
  "('s, 't, 'o) flattenIteratorC \<Rightarrow> ('o option \<times> ('s, 't, 'o) flattenIteratorC) option" where
  "flattenIteratorC_Next iter =
     (case flattenC_head iter of
        None \<Rightarrow>
          (case Next (flattenC_from iter) of
             None \<Rightarrow> None
           | Some (None, frm') \<Rightarrow> Some (None, iter\<lparr>flattenC_from := frm'\<rparr>)
           | Some (Some item, frm') \<Rightarrow>
               flattenIteratorC_Next (iter\<lparr>flattenC_from := frm', flattenC_head := Some item\<rparr>))
      | Some head \<Rightarrow>
          (case Next head of
             None \<Rightarrow> None
           | Some (Some item, head') \<Rightarrow> Some (Some item, iter\<lparr>flattenC_head := Some head'\<rparr>)
           | Some (None, head') \<Rightarrow> flattenIteratorC_Next (iter\<lparr>flattenC_head := None\<rparr>)))"

declare flattenIteratorC_Next.simps [code]

definition flattenIteratorC_Count ::
  "('s, 't, 'o) flattenIteratorC \<Rightarrow> (int \<times> ('s, 't, 'o) flattenIteratorC) option" where
  "flattenIteratorC_Count iter =
     (let fromCounts = Map (flattenC_from iter) (\<lambda>item. map_option fst (Count item)) in
      case Sum_it fromCounts of
        None \<Rightarrow> None
      | Some (count, fromCounts') \<Rightarrow>
          (case flattenC_head iter of
             None \<Rightarrow> Some (count, iter\<lparr>flattenC_from := map_from (self fromCounts')\<rparr>)
           | Some head \<Rightarrow>
               (case Count head of
                  None \<Rightarrow> None
                | Some (n, head') \<Rightarrow>
                    Some (count + n,
                          iter\<lparr>flattenC_from := map_from (self fromCounts'),
                               flattenC_head := Some head'\<rparr>))))"

definition FlattenC ::
  "('s, ('t, 'o) Iterator) Iterator \<Rightarrow> (('s, 't, 'o) flattenIteratorC, 'o) Iterator" where
  "FlattenC frm =
     \<lparr>self = \<lparr>flattenC_from = frm, flattenC_head = None\<rparr>,
      next_impl = flattenIteratorC_Next, count_impl = Some flattenIteratorC_Count\<rparr>"

text \<open>\<open>Take\<close>\<close>

record ('s, 'a) takeIterator =
  take_from :: "('s, 'a) Iterator"
  take_num :: int

definition takeIterator_Next ::
  "('s, 'a) takeIterator \<Rightarrow> ('a option \<times> ('s, 'a) takeIterator) option" where
  "takeIterator_Next iter =
     (if take_num iter \<le> 0 then Some (None, iter)
      else
        (case Next (take_from iter) of
           None \<Rightarrow> None
         | Some (Some item, frm') \<Rightarrow>
             Some (Some item, iter\<lparr>take_from := frm', take_num := take_num iter - 1\<rparr>)
         | Some (None, frm') \<Rightarrow> Some (None, iter\<lparr>take_from := frm'\<rparr>)))"

text \<open>
  The counting loop of \<open>takeIterator.Count\<close>:
  \<^verbatim>\<open>for _, ok := iter.from.Next(); ok && count < iter.num; _, ok = iter.from.Next() { count++ }\<close>
  Each round pulls first and tests afterwards.
\<close>

partial_function (option) takeIterator_Count_loop ::
  "('s, 'a) Iterator \<Rightarrow> int \<Rightarrow> int \<Rightarrow> (int \<times> ('s, 'a) Iterator) option" where
  "takeIterator_Count_loop frm num count =
     (case Next frm of
        None \<Rightarrow> None
      | Some (item, frm') \<Rightarrow>
          if item \<noteq> None \<and> count < num then takeIterator_Count_loop frm' num (count + 1)
          else Some (count, frm'))"

declare takeIterator_Count_loop.simps [code]

definition takeIterator_Count ::
  "('s, 'a) takeIterator \<Rightarrow> (int \<times> ('s, 'a) takeIterator) option" where
  "takeIterator_Count iter =
     (case (case count_impl (take_from iter) of
              Some counter \<Rightarrow> Counter_Count counter (take_from iter)
            | None \<Rightarrow> takeIterator_Count_loop (take_from iter) (take_num iter) 0) of
        None \<Rightarrow> None
      | Some (count, frm') \<Rightarrow>
          Some (if take_num iter < count then take_num iter else count,
                iter\<lparr>take_from := frm', take_num := 0\<rparr>))"

definition Take :: "('s, 'a) Iterator \<Rightarrow> int \<Rightarrow> (('s, 'a) takeIterator, 'a) Iterator" where
  "Take frm num =
     \<lparr>self = \<lparr>take_from = frm, take_num = num\<rparr>,
      next_impl = takeIterator_Next, count_impl = Some takeIterator_Count\<rparr>"

section \<open>Observing an iterator\<close>

text \<open>
  The notions the properties are stated with. \<open>pulls k it\<close> calls \<open>Next\<close> \<open>k\<close> times in a
  row and lists what the calls reported. \<open>drains it xs it'\<close>: pulling \<open>it\<close> until \<open>Next\<close>
  reports false yields the items \<open>xs\<close>, in this order, and leaves the iterator as \<open>it'\<close>.
  \<open>reaches it it'\<close>: some number of returning \<open>Next\<close> calls leads from \<open>it\<close> to \<open>it'\<close>.
  \<open>exhausted it\<close>: the next call of \<open>Next\<close> returns and reports false, and so does every
  call after it. \<open>sticky it\<close>: whenever a call of \<open>Next\<close> on the handle reports false, the
  iterator is exhausted from then on.
\<close>

fun pulls :: "nat \<Rightarrow> ('s, 'a) Iterator \<Rightarrow> ('a option list \<times> ('s, 'a) Iterator) option" where
  "pulls 0 it = Some ([], it)"
| "pulls (Suc k) it =
     (case Next it of
        None \<Rightarrow> None
      | Some (r, it') \<Rightarrow>
          (case pulls k it' of
             None \<Rightarrow> None
           | Some (rs, it'') \<Rightarrow> Some (r # rs, it'')))"

inductive drains :: "('s, 'a) Iterator \<Rightarrow> 'a list \<Rightarrow> ('s, 'a) Iterator \<Rightarrow> bool" where
  drains_Nil: "Next it = Some (None, it') \<Longrightarrow> drains it [] it'"
| drains_Cons: "Next it = Some (Some x, it1) \<Longrightarrow> drains it1 xs it' \<Longrightarrow> drains it (x # xs) it'"

inductive reaches :: "('s, 'a) Iterator \<Rightarrow> ('s, 'a) Iterator \<Rightarrow> bool" where
  reaches_refl: "reaches it it"
| reaches_step: "reaches it it1 \<Longrightarrow> Next it1 = Some (r, it2) \<Longrightarrow> reaches it it2"

coinductive exhausted :: "('s, 'a) Iterator \<Rightarrow> bool" where
  exhausted_step: "Next it = Some (None, it') \<Longrightarrow> exhausted it' \<Longrightarrow> exhausted it"

definition sticky :: "('s, 'a) Iterator \<Rightarrow> bool" where
  "sticky it = (\<forall>it1 it2. reaches it it1 \<longrightarrow> Next it1 = Some (None, it2) \<longrightarrow> exhausted it2)"


text \<open>
  A probe around an upstream iterator counts the \<open>Next\<close> calls that reach it. It hides a
  \<open>Count\<close> method of the upstream.
\<close>

record ('s, 'a) probe =
  probe_inner :: "('s, 'a) Iterator"
  probe_pulls :: nat

definition probe_Next :: "('s, 'a) probe \<Rightarrow> ('a option \<times> ('s, 'a) probe) option" where
  "probe_Next p =
     (case Next (probe_inner p) of
        None \<Rightarrow> None
      | Some (r, inner') \<Rightarrow> Some (r, \<lparr>probe_inner = inner', probe_pulls = probe_pulls p + 1\<rparr>))"

definition Probed :: "('s, 'a) Iterator \<Rightarrow> nat \<Rightarrow> (('s, 'a) probe, 'a) Iterator" where
  "Probed frm k =
     \<lparr>self = \<lparr>probe_inner = frm, probe_pulls = k\<rparr>, next_impl = probe_Next, count_impl = None\<rparr>"

definition Probe :: "('s, 'a) Iterator \<Rightarrow> (('s, 'a) probe, 'a) Iterator" where
  "Probe frm = Probed frm 0"

definition pulled :: "(('s, 'a) probe, 'a) Iterator \<Rightarrow> nat" where
  "pulled p = probe_pulls (self p)"

text \<open>
  The constructors build an adapter in its first state. \<open>Flatten_at\<close> and \<open>FlattenC_at\<close> are
  the flatten iterators in any state, with the inner iterator being read given; \<open>Range_at\<close>
  is a range iterator with any fields.
\<close>

definition Flatten_at ::
  "('s, 'a) Iterator \<Rightarrow> ('t, 'o) Iterator option \<Rightarrow> ('a \<Rightarrow> ('t, 'o) Iterator) \<Rightarrow>
   (('s, 'a, 't, 'o) flattenIterator, 'o) Iterator" where
  "Flatten_at frm head f =
     \<lparr>self = \<lparr>flatten_from = frm, flatten_head = head, flatten_mapFunc = f\<rparr>,
      next_impl = flattenIterator_Next, count_impl = None\<rparr>"

definition FlattenC_at ::
  "('s, ('t, 'o) Iterator) Iterator \<Rightarrow> ('t, 'o) Iterator option \<Rightarrow>
   (('s, 't, 'o) flattenIteratorC, 'o) Iterator" where
  "FlattenC_at frm head =
     \<lparr>self = \<lparr>flattenC_from = frm, flattenC_head = head\<rparr>,
      next_impl = flattenIteratorC_Next, count_impl = Some flattenIteratorC_Count\<rparr>"

definition Range_at ::
  "('a::{ord,plus}) \<Rightarrow> 'a \<Rightarrow> 'a \<Rightarrow> ('a rangeIterator, 'a) Iterator" where
  "Range_at start end' step =
     \<lparr>self = \<lparr>range_start = start, range_end = end', range_step = step\<rparr>,
      next_impl = rangeIterator_Next, count_impl = None\<rparr>"


definition totally_ordered :: "'a::ord set \<Rightarrow> bool" where
  "totally_ordered S =
     ((\<forall>a\<in>S. \<forall>b\<in>S. a \<le> b \<or> b \<le> a) \<and>
      (\<forall>a\<in>S. \<forall>b\<in>S. \<forall>c\<in>S. a \<le> b \<longrightarrow> b \<le> c \<longrightarrow> a \<le> c) \<and>
      (\<forall>a\<in>S. \<forall>b\<in>S. (a < b) = (a \<le> b \<and> \<not> b \<le> a)))"

text \<open>
  \<open>counts_as_pulled it\<close>: pulling \<open>it\<close> until \<open>Next\<close> reports false ends, and \<open>Count\<close>, called on
  the iterator in the same state instead, returns the number of items that the pulling
  yields and leaves the iterator exhausted.
\<close>

definition counts_as_pulled :: "('s, 'a) Iterator \<Rightarrow> bool" where
  "counts_as_pulled it =
     (\<exists>xs it1 it2. ToSlice it = Some (xs, it1) \<and> Count it = Some (int (length xs), it2) \<and>
        exhausted it2)"

section \<open>The bridge to a goroutine (iterator.go)\<close>

text \<open>
  \<open>ToChannel\<close> starts a goroutine that pulls from the upstream iterator and sends every
  item into the channel it returns; the caller receives from that channel, through
  \<open>FromChannel\<close> in the case of \<open>Go\<close>. The two goroutines are modelled by the state they
  share and the steps either of them can take, one record field per variable of the
  source:

  \<^item> \<open>br_from\<close> is \<open>from\<close>, the upstream iterator, touched by the spawned goroutine only;
  \<^item> \<open>br_item\<close> is the loop variable \<open>item\<close>: \<open>Some\<close> while the goroutine stands at the
    \<open>select\<close> with an item that it has pulled and not yet sent;
  \<^item> \<open>br_running\<close> is false once the goroutine has returned;
  \<^item> \<open>br_out\<close> is the channel \<open>out\<close> and \<open>br_buffer\<close> its capacity;
  \<^item> \<open>br_cancelled\<close> says that the channel \<open>ctx.Done()\<close> is closed;
  \<^item> \<open>br_got\<close> lists what the receives of the consumer have returned so far, \<open>None\<close> for
    \<open>ok = false\<close>.
\<close>

record ('s, 'a) bridge =
  br_from :: "('s, 'a) Iterator"
  br_item :: "'a option"
  br_running :: bool
  br_out :: "'a chan"
  br_buffer :: nat
  br_cancelled :: bool
  br_got :: "'a option list"



text \<open>
  The steps. A step that cannot be taken in a state yields \<open>None\<close>.

  \<^item> \<open>Pull\<close>: the goroutine calls \<open>from.Next()\<close> in the loop header. When \<open>ok\<close> is false the
    loop ends, the function returns and the deferred \<open>close(out)\<close> runs.
  \<^item> \<open>Send\<close>: the \<open>select\<close> takes \<open>case out <- item\<close> and the item goes into the buffer,
    which has room.
  \<^item> \<open>Handoff\<close>: the \<open>select\<close> takes \<open>case out <- item\<close> and the item goes straight to the
    consumer, which is waiting in a receive on the empty channel. On a channel without
    a buffer this is the only way an item is passed.
  \<^item> \<open>Stop\<close>: the \<open>select\<close> takes \<open>case <-ctx.Done()\<close>; the goroutine returns and the
    deferred \<open>close(out)\<close> runs.
  \<^item> \<open>Receive\<close>: a receive of the consumer that finds an item in the buffer, or the channel
    closed and empty (\<open>recv\<close>, as in \<open>channelIterator.Next\<close>).
  \<^item> \<open>Cancel\<close>: the cancel function of the context is called.

  When the context is cancelled and the item can be sent as well, both cases of the
  \<open>select\<close> are ready and Go takes either: \<open>Stop\<close> and \<open>Send\<close> (or \<open>Handoff\<close>) are both steps of
  that state.
\<close>

datatype event = Pull | Send | Handoff | Stop | Receive | Cancel

definition exec :: "event \<Rightarrow> ('s, 'a) bridge \<Rightarrow> ('s, 'a) bridge option" where
  "exec e b =
     (case e of
        Pull \<Rightarrow>
          if br_running b \<and> br_item b = None then
            (case Next (br_from b) of
               None \<Rightarrow> None
             | Some (Some item, frm') \<Rightarrow> Some (b\<lparr>br_from := frm', br_item := Some item\<rparr>)
             | Some (None, frm') \<Rightarrow>
                 Some (b\<lparr>br_from := frm', br_running := False,
                         br_out := (br_out b)\<lparr>chan_closed := True\<rparr>\<rparr>))
          else None
      | Send \<Rightarrow>
          (case br_item b of
             Some item \<Rightarrow>
               if br_running b \<and> length (chan_queue (br_out b)) < br_buffer b then
                 Some (b\<lparr>br_item := None,
                         br_out := (br_out b)\<lparr>chan_queue := chan_queue (br_out b) @ [item]\<rparr>\<rparr>)
               else None
           | None \<Rightarrow> None)
      | Handoff \<Rightarrow>
          (case br_item b of
             Some item \<Rightarrow>
               if br_running b \<and> chan_queue (br_out b) = [] then
                 Some (b\<lparr>br_item := None, br_got := br_got b @ [Some item]\<rparr>)
               else None
           | None \<Rightarrow> None)
      | Stop \<Rightarrow>
          if br_running b \<and> br_item b \<noteq> None \<and> br_cancelled b then
            Some (b\<lparr>br_item := None, br_running := False,
                    br_out := (br_out b)\<lparr>chan_closed := True\<rparr>\<rparr>)
          else None
      | Receive \<Rightarrow>
          (case recv (br_out b) of
             None \<Rightarrow> None
           | Some (r, c') \<Rightarrow> Some (b\<lparr>br_out := c', br_got := br_got b @ [r]\<rparr>))
      | Cancel \<Rightarrow> Some (b\<lparr>br_cancelled := True\<rparr>))"

text \<open>A schedule is a list of steps; \<open>run\<close> takes them in order.\<close>

fun run :: "event list \<Rightarrow> ('s, 'a) bridge \<Rightarrow> ('s, 'a) bridge option" where
  "run [] b = Some b"
| "run (e # es) b = (case exec e b of None \<Rightarrow> None | Some b' \<Rightarrow> run es b')"





section \<open>Basic facts\<close>

lemma Next_vtable:
  assumes "Next it = Some (r, it')"
  shows "next_impl it' = next_impl it" and "count_impl it' = count_impl it"
  using assms by (auto simp: Next_def split: option.splits)

lemma drains_determ:
  assumes "drains it xs it1" and "drains it ys it2"
  shows "xs = ys \<and> it1 = it2"
  using assms
proof (induction arbitrary: ys it2 rule: drains.induct)
  case (drains_Nil it it')
  from drains_Nil.prems drains_Nil.hyps show ?case
    by (cases rule: drains.cases) auto
next
  case (drains_Cons it x it1 xs it')
  from drains_Cons.prems drains_Cons.hyps(1) obtain ys' where
    "ys = x # ys'" and "drains it1 ys' it2"
    by (cases rule: drains.cases) auto
  with drains_Cons.IH show ?case by auto
qed

lemma reaches_trans:
  assumes "reaches b c" and "reaches a b"
  shows "reaches a c"
  using assms by (induction rule: reaches.induct) (auto intro: reaches.intros)

lemma reaches_Next:
  assumes "Next a = Some (r, b)"
  shows "reaches a b"
  using reaches_step [OF reaches_refl assms] .

lemma reaches_Next_first:
  assumes "Next a = Some (r, b)" and "reaches b c"
  shows "reaches a c"
  using reaches_trans [OF assms(2) reaches_Next [OF assms(1)]] .

lemma drains_reaches:
  assumes "drains it xs it'"
  shows "reaches it it'"
  using assms
  by (induction rule: drains.induct) (auto intro: reaches_Next reaches_Next_first)

lemma drains_last_absent:
  assumes "drains it xs it'"
  shows "\<exists>it1. reaches it it1 \<and> Next it1 = Some (None, it')"
  using assms
proof (induction rule: drains.induct)
  case (drains_Nil it it')
  then show ?case by (auto intro: reaches_refl)
next
  case (drains_Cons it x it1 xs it')
  then show ?case by (blast intro: reaches_Next_first)
qed

lemma exhausted_Next:
  assumes "exhausted it"
  obtains it' where "Next it = Some (None, it')" and "exhausted it'"
  using assms by (auto elim: exhausted.cases)

lemma exhausted_reaches:
  assumes "reaches it it'" and "exhausted it"
  shows "exhausted it'"
  using assms
proof (induction rule: reaches.induct)
  case (reaches_refl it)
  then show ?case .
next
  case (reaches_step it it1 r it2)
  then have "exhausted it1" by simp
  with reaches_step.hyps(2) show ?case by (auto elim: exhausted.cases)
qed

lemma exhausted_fixed:
  assumes "Next it = Some (None, it)"
  shows "exhausted it"
proof (coinduction)
  case exhausted
  with assms show ?case by auto
qed

lemma exhausted_pulls:
  assumes "exhausted it"
  shows "\<exists>it'. pulls k it = Some (replicate k None, it') \<and> exhausted it'"
  using assms
proof (induction k arbitrary: it)
  case 0
  then show ?case by simp
next
  case (Suc k)
  from Suc.prems obtain it1 where n: "Next it = Some (None, it1)" and e: "exhausted it1"
    by (rule exhausted_Next)
  from Suc.IH [OF e] obtain it2 where "pulls k it1 = Some (replicate k None, it2)" "exhausted it2"
    by blast
  with n show ?case by simp
qed

lemma exhausted_drains:
  assumes "exhausted it"
  shows "\<exists>it'. drains it [] it' \<and> exhausted it'"
proof -
  from assms obtain it' where "Next it = Some (None, it')" and "exhausted it'"
    by (rule exhausted_Next)
  then show ?thesis by (blast intro: drains_Nil)
qed

lemma sticky_drains:
  assumes "sticky it" and "drains it xs it'"
  shows "exhausted it'"
  using drains_last_absent [OF assms(2)] assms(1) by (auto simp: sticky_def)

lemma sticky_reaches:
  assumes "sticky it" and "reaches it it'"
  shows "sticky it'"
  using assms unfolding sticky_def by (blast intro: reaches_trans)

subsection \<open>The loops, in terms of \<open>drains\<close>\<close>

lemma ToSlice_loop_drains:
  assumes "drains it xs it'"
  shows "ToSlice_loop it acc = Some (acc @ xs, it')"
  using assms
proof (induction arbitrary: acc rule: drains.induct)
  case (drains_Nil it it')
  then show ?case by (subst ToSlice_loop.simps) simp
next
  case (drains_Cons it x it1 xs it')
  then show ?case by (subst ToSlice_loop.simps) simp
qed

lemma ToSlice_loop_Some:
  assumes "ToSlice_loop it acc = Some res"
  shows "\<exists>xs. drains it xs (snd res) \<and> fst res = acc @ xs"
  using assms
proof (induction it acc res rule: ToSlice_loop.raw_induct [rotated 1, consumes 1, case_names step])
  case (step loop frm acc res)
  note 1 = step
  show ?case
  proof (cases "Next frm")
    case None
    with 1(2) show ?thesis by simp
  next
    case (Some p)
    obtain r it1 where p: "p = (r, it1)" by (cases p)
    show ?thesis
    proof (cases r)
      case None
      with 1(2) Some p show ?thesis by (auto intro: drains_Nil)
    next
      case (Some x)
      with 1(2) \<open>Next frm = Some p\<close> p have "loop it1 (acc @ [x]) = Some res" by simp
      from 1(1) [OF this] obtain xs where "drains it1 xs (snd res)" "fst res = (acc @ [x]) @ xs"
        by blast
      with Some \<open>Next frm = Some p\<close> p show ?thesis
        by (auto intro: drains_Cons)
    qed
  qed
qed

lemma ToSlice_iff: "ToSlice it = Some (xs, it') \<longleftrightarrow> drains it xs it'"
  unfolding ToSlice_def
  using ToSlice_loop_Some [of it "[]" "(xs, it')"] ToSlice_loop_drains [of it xs it' "[]"]
  by auto

lemma Reduce_drains:
  assumes "drains it xs it'"
  shows "Reduce it f a = Some (foldl f a xs, it')"
  using assms
proof (induction arbitrary: a rule: drains.induct)
  case (drains_Nil it it')
  then show ?case by (subst Reduce.simps) simp
next
  case (drains_Cons it x it1 xs it')
  then show ?case by (subst Reduce.simps) simp
qed

lemma Count_loop_drains:
  assumes "drains it xs it'"
  shows "Count_loop it c = Some (c + int (length xs), it')"
  using assms
proof (induction arbitrary: c rule: drains.induct)
  case (drains_Nil it it')
  then show ?case by (subst Count_loop.simps) simp
next
  case (drains_Cons it x it1 xs it')
  then show ?case by (subst Count_loop.simps) simp
qed

lemma ToMap_loop_drains:
  assumes "drains it es it'"
  shows "ToMap_loop it m = Some (m ++ map_of (rev (map (\<lambda>e. (Key e, Val e)) es)), it')"
  using assms
proof (induction arbitrary: m rule: drains.induct)
  case (drains_Nil it it')
  then show ?case by (subst ToMap_loop.simps) simp
next
  case (drains_Cons it x it1 xs it')
  have "m(Key x \<mapsto> Val x) = m ++ [Key x \<mapsto> Val x]" by simp
  then have eq: "m(Key x \<mapsto> Val x) ++ map_of (rev (map (\<lambda>e. (Key e, Val e)) xs)) =
      m ++ map_of (rev (map (\<lambda>e. (Key e, Val e)) (x # xs)))"
    by (simp only: list.map rev.simps map_of_append map_add_assoc map_of.simps fst_conv snd_conv)
  have step: "ToMap_loop it m = ToMap_loop it1 (m(Key x \<mapsto> Val x))"
    by (subst ToMap_loop.simps) (simp add: drains_Cons.hyps(1))
  show ?case by (simp only: step drains_Cons.IH eq)
qed

section \<open>The numeric types\<close>

lemma sbits_SInt [simp]: "sbits (SInt w) = w"
  by (simp add: SInt_inverse)

lemma SInt_eq_iff [simp]: "(SInt v = SInt w) = (v = w)"
  by (simp add: SInt_inject)

subsection \<open>Rounding\<close>

lemma bits_le_iff: "bits a \<le> b \<longleftrightarrow> a < 2 ^ b"
proof (induction a arbitrary: b rule: bits.induct)
  case (1 a)
  show ?case
  proof (cases "a \<le> 0")
    case True
    have "(0::int) < 2 ^ b" by simp
    with True have "a < 2 ^ b" by linarith
    with True show ?thesis by (simp add: bits.simps)
  next
    case False
    show ?thesis
    proof (cases b)
      case 0
      with False show ?thesis by (simp add: bits.simps)
    next
      case (Suc b')
      from False have "bits a \<le> b \<longleftrightarrow> bits (a div 2) \<le> b'"
        by (subst bits.simps) (simp add: Suc)
      also from 1 [OF False] have "\<dots> \<longleftrightarrow> a div 2 < 2 ^ b'" .
      also have "\<dots> \<longleftrightarrow> a < 2 ^ b" by (auto simp: Suc)
      finally show ?thesis .
    qed
  qed
qed

lemma round64_exact:
  assumes "2 ^ n dvd k" and "\<bar>k\<bar> < 2 ^ (53 + n)" and "53 + n \<le> 2098"
  shows "round64 k = Fin k"
proof -
  define a where "a = \<bar>k\<bar>"
  define sh where "sh = bits a - 53"
  from assms(2) have "a < 2 ^ (53 + n)" by (simp add: a_def)
  then have "bits a \<le> 53 + n" by (simp add: bits_le_iff)
  then have "sh \<le> n" by (simp add: sh_def)
  then have "(2::int) ^ sh dvd 2 ^ n" by (rule le_imp_power_dvd)
  from this assms(1) have "2 ^ sh dvd k" by (rule dvd_trans)
  then have d: "2 ^ sh dvd a" by (simp add: a_def)
  then have r: "a mod 2 ^ sh = 0" by simp
  from d have q: "a div 2 ^ sh * 2 ^ sh = a" by simp
  have "a < 2 ^ (53 + n)" by fact
  also have "\<dots> \<le> (2::int) ^ 2098" using assms(3) by (intro power_increasing) simp_all
  finally have lt: "\<not> 2 ^ 2098 \<le> a" by simp
  have fin: "(if k < 0 then - a else a) = k" by (simp add: a_def)
  have qp: "(if 2 * (a mod 2 ^ sh) < 2 ^ sh \<or> (2 * (a mod 2 ^ sh) = 2 ^ sh \<and> even (a div 2 ^ sh))
      then a div 2 ^ sh else a div 2 ^ sh + 1) = a div 2 ^ sh"
    by (simp add: r)
  show ?thesis
    unfolding round64_def Let_def a_def [symmetric] sh_def [symmetric] qp q
    by (simp only: lt if_False fin)
qed


lemma float64_of_int_exact:
  assumes "\<bar>n\<bar> < 2 ^ 53"
  shows "float64_of_int n = Fin (n * 2 ^ 1074)"
  unfolding float64_of_int_def
proof (rule round64_exact [where n = 1074])
  show "(2::int) ^ 1074 dvd n * 2 ^ 1074" by (rule dvd_triv_right)
  have "\<bar>n * 2 ^ 1074\<bar> = \<bar>n\<bar> * 2 ^ 1074" by (simp add: abs_mult)
  also have "\<dots> < 2 ^ 53 * 2 ^ 1074" using assms by (intro mult_strict_right_mono) simp_all
  finally show "\<bar>n * 2 ^ 1074\<bar> < 2 ^ (53 + 1074)" by (simp only: power_add)
  show "53 + 1074 \<le> (2098::nat)" by simp
qed





lemma float64_of_int_small:
  "float64_of_int 1 = Fin (2 ^ 1074)" "float64_of_int 2 = Fin (2 * 2 ^ 1074)"
  "float64_of_int 3 = Fin (3 * 2 ^ 1074)"
  using float64_of_int_exact [of 1] float64_of_int_exact [of 2] float64_of_int_exact [of 3]
  by simp_all

subsection \<open>Total orders\<close>

lemma totally_ordered_linorder: "totally_ordered (S :: 'a::linorder set)"
  by (auto simp: totally_ordered_def)

lemma totally_ordered_sword: "totally_ordered (S :: 'w::len sword set)"
  by (auto simp: totally_ordered_def less_sword_def less_eq_sword_def word_sle_eq word_sless_alt)

lemma totally_ordered_float64:
  assumes "NaN \<notin> S"
  shows "totally_ordered S"
proof -
  have 1: "a \<le> b \<or> b \<le> a" if "a \<noteq> NaN" "b \<noteq> NaN" for a b :: float64
    using that by (cases a; cases b) (auto simp: less_eq_float64_def)
  have 2: "a \<le> c" if "a \<le> b" "b \<le> c" for a b c :: float64
    using that by (cases a; cases b; cases c) (auto simp: less_eq_float64_def)
  have 3: "(a < b) = (a \<le> b \<and> \<not> b \<le> a)" for a b :: float64
    by (cases a; cases b) (auto simp: less_eq_float64_def less_float64_def)
  show ?thesis
    unfolding totally_ordered_def
  proof (intro conjI ballI impI)
    fix a b
    assume "a \<in> S" "b \<in> S"
    with assms have "a \<noteq> NaN" "b \<noteq> NaN" by auto
    then show "a \<le> b \<or> b \<le> a" by (rule 1)
  next
    fix a b c :: float64
    assume "a \<le> b" "b \<le> c"
    then show "a \<le> c" by (rule 2)
  next
    fix a b :: float64
    show "(a < b) = (a \<le> b \<and> \<not> b \<le> a)" by (rule 3)
  qed
qed

lemma totally_ordered_subset:
  assumes "totally_ordered T" and "S \<subseteq> T"
  shows "totally_ordered S"
  using assms unfolding totally_ordered_def by (meson subsetD)

lemma not_less_total:
  assumes "totally_ordered T" and "a \<in> T" and "b \<in> T" and "\<not> a < b"
  shows "b \<le> a"
  using assms unfolding totally_ordered_def by blast

lemma less_total:
  assumes "totally_ordered T" and "a \<in> T" and "b \<in> T" and "a < b"
  shows "a \<le> b"
  using assms unfolding totally_ordered_def by blast

lemma le_trans_total:
  assumes "totally_ordered T" and "a \<in> T" and "b \<in> T" and "c \<in> T" and "a \<le> b" and "b \<le> c"
  shows "a \<le> c"
  using assms unfolding totally_ordered_def by blast

lemma le_refl_total:
  assumes "totally_ordered T" and "a \<in> T"
  shows "a \<le> a"
proof -
  from assms have "a \<le> a \<or> a \<le> a" unfolding totally_ordered_def by (elim conjE) (rule bspec, rule bspec)
  then show ?thesis by simp
qed

section \<open>Sources and sinks\<close>

subsection \<open>\<open>FromSlice\<close> and \<open>ToSlice\<close>\<close>

lemma Next_FromSlice_Nil: "Next (FromSlice []) = Some (None, FromSlice [])"
  by (simp add: Next_def FromSlice_def sliceIterator_Next_def)

lemma Next_FromSlice_Cons: "Next (FromSlice (x # xs)) = Some (Some x, FromSlice xs)"
  by (simp add: Next_def FromSlice_def sliceIterator_Next_def)

lemma drains_FromSlice: "drains (FromSlice xs) xs (FromSlice [])"
  by (induction xs) (auto intro: drains.intros simp: Next_FromSlice_Nil Next_FromSlice_Cons)

lemma exhausted_FromSlice_Nil: "exhausted (FromSlice [])"
  by (rule exhausted_fixed) (rule Next_FromSlice_Nil)

lemma ToSlice_of_FromSlice: "ToSlice (FromSlice xs) = Some (xs, FromSlice [])"
  by (simp add: ToSlice_iff drains_FromSlice)

lemma pulls_FromSlice: "pulls (length xs) (FromSlice xs) = Some (map Some xs, FromSlice [])"
  by (induction xs) (simp_all add: Next_FromSlice_Cons)

text \<open>
  Claim C8. Round trip through a slice: for every slice \<open>xs\<close>, \<open>ToSlice (FromSlice xs)\<close>
  returns, and returns \<open>xs\<close>; pull by pull, \<open>FromSlice xs\<close> yields the items of \<open>xs\<close> in their
  order. So for an iterator \<open>S\<close> that ends, wrapping the slice that \<open>ToSlice\<close> collected
  from it gives an iterator from which \<open>ToSlice\<close> collects the same slice again.
\<close>

theorem slice_round_trip:
  "ToSlice (FromSlice xs) = Some (xs, FromSlice []) \<and>
   pulls (length xs) (FromSlice xs) = Some (map Some xs, FromSlice []) \<and>
   (ToSlice S = Some (ys, S') \<longrightarrow>
      map_option fst (ToSlice (FromSlice ys)) = map_option fst (ToSlice S))"
proof (intro conjI impI)
  show "ToSlice (FromSlice xs) = Some (xs, FromSlice [])" by (rule ToSlice_of_FromSlice)
  show "pulls (length xs) (FromSlice xs) = Some (map Some xs, FromSlice [])"
    by (rule pulls_FromSlice)
next
  assume "ToSlice S = Some (ys, S')"
  then show "map_option fst (ToSlice (FromSlice ys)) = map_option fst (ToSlice S)"
    by (simp add: ToSlice_of_FromSlice)
qed

theorem slice_round_trip_witness:
  "map_option fst (ToSlice (Map (FromSlice [1, 2, 3 :: int]) (\<lambda>i. Some (i * 2)))) = Some [2, 4, 6] \<and>
   map_option fst (ToSlice (FromSlice [2, 4, 6 :: int])) = Some [2, 4, 6]"
proof -
  have a: "map_option fst (ToSlice (Map (FromSlice [1, 2, 3 :: int]) (\<lambda>i. Some (i * 2)))) = Some [2, 4, 6]"
    by code_simp
  then obtain S' where
    "ToSlice (Map (FromSlice [1, 2, 3 :: int]) (\<lambda>i. Some (i * 2))) = Some ([2, 4, 6], S')"
    by auto
  from slice_round_trip [THEN conjunct2, THEN conjunct2, rule_format, OF this] a
  show ?thesis by simp
qed

subsection \<open>\<open>ToMap\<close>\<close>

lemma map_of_rev_last:
  assumes "k \<notin> fst ` set ps2"
  shows "map_of (rev (ps1 @ (k, v) # ps2)) k = Some v"
  using assms by (simp add: map_add_Some_iff map_of_eq_None_iff)

text \<open>
  Claim C10. For an iterator of entries that ends, yielding the entries \<open>es\<close>, \<open>ToMap\<close>
  returns a map whose keys are exactly the keys of \<open>es\<close>, and which binds the key of an
  entry to the value of that entry whenever no later entry has the same key: the last
  entry of a key wins.
\<close>

theorem ToMap_last_wins:
  assumes "ToSlice frm = Some (es, frm')"
  shows "\<exists>m. ToMap frm = Some (m, frm') \<and> dom m = Key ` set es \<and>
    (\<forall>es1 e es2. es = es1 @ e # es2 \<and> Key e \<notin> Key ` set es2 \<longrightarrow> m (Key e) = Some (Val e))"
proof -
  let ?ps = "map (\<lambda>e. (Key e, Val e)) es"
  let ?m = "map_of (rev ?ps)"
  from assms have d: "drains frm es frm'" by (simp add: ToSlice_iff)
  have 1: "ToMap frm = Some (?m, frm')"
    unfolding ToMap_def by (simp add: ToMap_loop_drains [OF d])
  have 2: "dom ?m = Key ` set es"
    by (simp add: dom_map_of_conv_image_fst image_image)
  have 3: "?m (Key e) = Some (Val e)" if "es = es1 @ e # es2" "Key e \<notin> Key ` set es2" for es1 e es2
  proof -
    have a: "?ps = map (\<lambda>e. (Key e, Val e)) es1 @ (Key e, Val e) # map (\<lambda>e. (Key e, Val e)) es2"
      using that(1) by simp
    have b: "Key e \<notin> fst ` set (map (\<lambda>e. (Key e, Val e)) es2)"
      using that(2) by (simp add: image_image)
    show ?thesis unfolding a by (rule map_of_rev_last [OF b])
  qed
  from 1 2 3 show ?thesis by blast
qed

theorem ToMap_last_wins_witness:
  "ToSlice (FromSlice [\<lparr>Key = ''x'', Val = 1::int\<rparr>, \<lparr>Key = ''y'', Val = 2\<rparr>, \<lparr>Key = ''x'', Val = 3\<rparr>]) =
     Some ([\<lparr>Key = ''x'', Val = 1\<rparr>, \<lparr>Key = ''y'', Val = 2\<rparr>, \<lparr>Key = ''x'', Val = 3\<rparr>], FromSlice []) \<and>
   (\<exists>m. ToMap (FromSlice [\<lparr>Key = ''x'', Val = 1::int\<rparr>, \<lparr>Key = ''y'', Val = 2\<rparr>, \<lparr>Key = ''x'', Val = 3\<rparr>]) =
      Some (m, FromSlice []) \<and> dom m = {''x'', ''y''} \<and> m ''x'' = Some 3 \<and> m ''y'' = Some 2)"
proof -
  let ?es = "[\<lparr>Key = ''x'', Val = 1::int\<rparr>, \<lparr>Key = ''y'', Val = 2\<rparr>, \<lparr>Key = ''x'', Val = 3\<rparr>]"
  have h: "ToSlice (FromSlice ?es) = Some (?es, FromSlice [])" by (rule ToSlice_of_FromSlice)
  from ToMap_last_wins [OF h] obtain m where
    m: "ToMap (FromSlice ?es) = Some (m, FromSlice []) \<and> dom m = Key ` set ?es \<and>
      (\<forall>es1 e es2. ?es = es1 @ e # es2 \<and> Key e \<notin> Key ` set es2 \<longrightarrow> m (Key e) = Some (Val e))" ..
  note l = m [THEN conjunct2, THEN conjunct2, rule_format]
  have x: "m ''x'' = Some 3"
    using l [of "[\<lparr>Key = ''x'', Val = 1::int\<rparr>, \<lparr>Key = ''y'', Val = 2\<rparr>]" "\<lparr>Key = ''x'', Val = 3\<rparr>" "[]"] by simp
  have y: "m ''y'' = Some 2"
    using l [of "[\<lparr>Key = ''x'', Val = 1::int\<rparr>]" "\<lparr>Key = ''y'', Val = 2\<rparr>" "[\<lparr>Key = ''x'', Val = 3\<rparr>]"] by simp
  have d: "dom m = {''x'', ''y''}" using m [THEN conjunct2, THEN conjunct1] by auto
  from h m [THEN conjunct1] x y d show ?thesis by (intro conjI exI [of _ m])
qed

subsection \<open>\<open>Min\<close> and \<open>Max\<close>\<close>

lemma Next_Empty: "Next Empty = Some (None, Empty)"
  by (simp add: Next_def Empty_def emptyIterator_Next_def)

lemma drains_Empty: "drains Empty [] Empty"
  by (rule drains_Nil) (rule Next_Empty)

lemma foldl_min_least:
  assumes "totally_ordered T" and "init \<in> T" and "set xs \<subseteq> T"
  shows "foldl (\<lambda>accum item. if item < accum then item else accum) init xs \<in> set (init # xs) \<and>
    (\<forall>x\<in>set (init # xs). foldl (\<lambda>accum item. if item < accum then item else accum) init xs \<le> x)"
  using assms(2,3)
proof (induction xs arbitrary: init)
  case Nil
  with le_refl_total [OF assms(1)] show ?case by simp
next
  case (Cons x xs)
  let ?f = "\<lambda>accum item. if item < accum then item else accum"
  let ?i = "if x < init then x else init"
  let ?m = "foldl ?f ?i xs"
  from Cons.prems have x: "x \<in> T" and xs: "set xs \<subseteq> T" by simp_all
  with Cons.prems(1) have i: "?i \<in> T" by simp
  from Cons.IH [OF i xs] have m: "?m \<in> set (?i # xs)" and le: "\<forall>y\<in>set (?i # xs). ?m \<le> y"
    by blast+
  from m i xs have mT: "?m \<in> T" by auto
  from le have mi: "?m \<le> ?i" by simp
  have "?i \<le> init \<and> ?i \<le> x"
  proof (cases "x < init")
    case True
    with less_total [OF assms(1) x Cons.prems(1)] le_refl_total [OF assms(1) x]
    show ?thesis by simp
  next
    case False
    with not_less_total [OF assms(1) x Cons.prems(1)] le_refl_total [OF assms(1) Cons.prems(1)]
    show ?thesis by simp
  qed
  with mi have "?m \<le> init" and "?m \<le> x"
    using le_trans_total [OF assms(1) mT i Cons.prems(1)] le_trans_total [OF assms(1) mT i x]
    by blast+
  moreover from le have "\<forall>y\<in>set xs. ?m \<le> y" by simp
  moreover from m have "?m \<in> set (init # x # xs)" by (auto split: if_splits)
  ultimately show ?case by simp
qed

lemma foldl_max_greatest:
  assumes "totally_ordered T" and "init \<in> T" and "set xs \<subseteq> T"
  shows "foldl (\<lambda>accum item. if item > accum then item else accum) init xs \<in> set (init # xs) \<and>
    (\<forall>x\<in>set (init # xs). x \<le> foldl (\<lambda>accum item. if item > accum then item else accum) init xs)"
  using assms(2,3)
proof (induction xs arbitrary: init)
  case Nil
  with le_refl_total [OF assms(1)] show ?case by simp
next
  case (Cons x xs)
  let ?f = "\<lambda>accum item. if item > accum then item else accum"
  let ?i = "if x > init then x else init"
  let ?m = "foldl ?f ?i xs"
  from Cons.prems have x: "x \<in> T" and xs: "set xs \<subseteq> T" by simp_all
  with Cons.prems(1) have i: "?i \<in> T" by simp
  from Cons.IH [OF i xs] have m: "?m \<in> set (?i # xs)" and le: "\<forall>y\<in>set (?i # xs). y \<le> ?m"
    by blast+
  from m i xs have mT: "?m \<in> T" by auto
  from le have mi: "?i \<le> ?m" by simp
  have "init \<le> ?i \<and> x \<le> ?i"
  proof (cases "init < x")
    case True
    with less_total [OF assms(1) Cons.prems(1) x] le_refl_total [OF assms(1) x]
    show ?thesis by simp
  next
    case False
    with not_less_total [OF assms(1) Cons.prems(1) x] le_refl_total [OF assms(1) Cons.prems(1)]
    show ?thesis by simp
  qed
  with mi have "init \<le> ?m" and "x \<le> ?m"
    using le_trans_total [OF assms(1) Cons.prems(1) i mT] le_trans_total [OF assms(1) x i mT]
    by blast+
  moreover from le have "\<forall>y\<in>set xs. y \<le> ?m" by simp
  moreover from m have "?m \<in> set (init # x # xs)" by (auto split: if_splits)
  ultimately show ?case by simp
qed

text \<open>
  Claim C7. \<open>Min\<close> and \<open>Max\<close> pull the first item to start from. For an iterator that ends
  at once they report no result (\<open>ok = false\<close>). For one that yields the items \<open>xs\<close>, not
  empty, and ends, with \<open>xs\<close> totally ordered by the comparison of the type, they return
  with \<open>ok = true\<close> an item of \<open>xs\<close> that is \<open>\<le>\<close> every item, respectively \<open>\<ge>\<close> every item.
\<close>

theorem Min_Max_of_iterator:
  fixes frm :: "('s, 'a::ord) Iterator"
  assumes "ToSlice frm = Some (xs, frm')" and "totally_ordered (set xs)"
  shows "(xs = [] \<longrightarrow> Min_it frm = Some (None, frm') \<and> Max_it frm = Some (None, frm')) \<and>
    (xs \<noteq> [] \<longrightarrow>
      (\<exists>lo hi. Min_it frm = Some (Some lo, frm') \<and> Max_it frm = Some (Some hi, frm') \<and>
         lo \<in> set xs \<and> hi \<in> set xs \<and> (\<forall>x\<in>set xs. lo \<le> x \<and> x \<le> hi)))"
proof -
  from assms(1) have "drains frm xs frm'" by (simp add: ToSlice_iff)
  then show ?thesis
  proof (cases rule: drains.cases)
    case drains_Nil
    then show ?thesis by (simp add: Min_it_def Max_it_def)
  next
    case (drains_Cons x it1 xs')
    let ?lo = "foldl (\<lambda>accum item. if item < accum then item else accum) x xs'"
    let ?hi = "foldl (\<lambda>accum item. if item > accum then item else accum) x xs'"
    from assms(2) drains_Cons(1) have t: "totally_ordered (set (x # xs'))" by simp
    have x: "x \<in> set (x # xs')" and s: "set xs' \<subseteq> set (x # xs')" by auto
    note lo = foldl_min_least [OF t x s] and hi = foldl_max_greatest [OF t x s]
    have 1: "Min_it frm = Some (Some ?lo, frm')"
      unfolding Min_it_def by (simp add: drains_Cons(2) Reduce_drains [OF drains_Cons(3)])
    have 2: "Max_it frm = Some (Some ?hi, frm')"
      unfolding Max_it_def by (simp add: drains_Cons(2) Reduce_drains [OF drains_Cons(3)])
    from lo hi have "?lo \<in> set xs \<and> ?hi \<in> set xs \<and> (\<forall>y\<in>set xs. ?lo \<le> y \<and> y \<le> ?hi)"
      unfolding drains_Cons(1) by blast
    with 1 2 drains_Cons(1) show ?thesis by blast
  qed
qed

theorem Min_Max_of_iterator_witness:
  "Min_it (FromSlice [4, 5, 1, 2, 3 :: int]) = Some (Some 1, FromSlice []) \<and>
   Max_it (FromSlice [4, 5, 1, 2, 3 :: int]) = Some (Some 5, FromSlice []) \<and>
   Min_it (Empty :: (unit, int) Iterator) = Some (None, Empty) \<and>
   Max_it (Empty :: (unit, int) Iterator) = Some (None, Empty) \<and>
   Min_it (FromSlice [float64_of_int 2, float64_of_int 1, float64_of_int 3]) =
     Some (Some (float64_of_int 1), FromSlice []) \<and>
   Max_it (FromSlice [float64_of_int 2, float64_of_int 1, float64_of_int 3]) =
     Some (Some (float64_of_int 3), FromSlice [])"
proof -
  have a: "ToSlice (FromSlice [4, 5, 1, 2, 3 :: int]) = Some ([4, 5, 1, 2, 3], FromSlice [])"
    by (rule ToSlice_of_FromSlice)
  from Min_Max_of_iterator [OF a totally_ordered_linorder]
  obtain lo hi where "Min_it (FromSlice [4, 5, 1, 2, 3 :: int]) = Some (Some lo, FromSlice [])"
    and "Max_it (FromSlice [4, 5, 1, 2, 3 :: int]) = Some (Some hi, FromSlice [])"
    and "lo \<in> set [4, 5, 1, 2, 3]" and "hi \<in> set [4, 5, 1, 2, 3]"
    and "\<forall>x\<in>set [4, 5, 1, 2, 3]. lo \<le> x \<and> x \<le> hi"
    by auto
  then have 1: "Min_it (FromSlice [4, 5, 1, 2, 3 :: int]) = Some (Some 1, FromSlice []) \<and>
      Max_it (FromSlice [4, 5, 1, 2, 3 :: int]) = Some (Some 5, FromSlice [])"
    by auto
  have b: "ToSlice (Empty :: (unit, int) Iterator) = Some ([], Empty)"
    by (simp add: ToSlice_iff drains_Empty)
  from Min_Max_of_iterator [OF b] have 2: "Min_it (Empty :: (unit, int) Iterator) = Some (None, Empty) \<and>
      Max_it (Empty :: (unit, int) Iterator) = Some (None, Empty)"
    by (simp add: totally_ordered_def)
  let ?fs = "[float64_of_int 2, float64_of_int 1, float64_of_int 3]"
  have c: "ToSlice (FromSlice ?fs) = Some (?fs, FromSlice [])" by (rule ToSlice_of_FromSlice)
  have "NaN \<notin> set ?fs" by (simp add: float64_of_int_small)
  then have t: "totally_ordered (set ?fs)" by (rule totally_ordered_float64)
  have ne: "?fs \<noteq> []" by simp
  from Min_Max_of_iterator [OF c t, THEN conjunct2, rule_format, OF ne]
  obtain lo hi where m: "Min_it (FromSlice ?fs) = Some (Some lo, FromSlice [])"
    "Max_it (FromSlice ?fs) = Some (Some hi, FromSlice [])"
    and lo: "lo \<in> set ?fs" and hi: "hi \<in> set ?fs"
    and le: "\<forall>x\<in>set ?fs. lo \<le> x \<and> x \<le> hi"
    by blast
  from le have "lo \<le> float64_of_int 1" and "float64_of_int 3 \<le> hi" by simp_all
  moreover from lo hi have "lo = float64_of_int 2 \<or> lo = float64_of_int 1 \<or> lo = float64_of_int 3"
    and "hi = float64_of_int 2 \<or> hi = float64_of_int 1 \<or> hi = float64_of_int 3"
    by simp_all
  ultimately have "lo = float64_of_int 1" and "hi = float64_of_int 3"
    unfolding float64_of_int_small less_eq_float64_def by auto
  with m have 3: "Min_it (FromSlice ?fs) = Some (Some (float64_of_int 1), FromSlice []) \<and>
      Max_it (FromSlice ?fs) = Some (Some (float64_of_int 3), FromSlice [])"
    by simp
  from 1 2 3 show ?thesis by (simp only: simp_thms)
qed

text \<open>
  Without the condition the claim fails for \<open>float64\<close>: a comparison with a NaN is false,
  so a NaN pulled first is never replaced and one pulled later never taken.
  \<open>Min\<close> of \<open>[NaN, 1, 2]\<close> is the NaN, which is not \<open>\<le> 1\<close>, while \<open>Min\<close> of the same items as
  \<open>[1, NaN, 2]\<close> is \<open>1\<close>; likewise for \<open>Max\<close>.
\<close>

theorem Min_Max_NaN_counterexample:
  "Min_it (FromSlice [NaN, float64_of_int 1, float64_of_int 2]) = Some (Some NaN, FromSlice []) \<and>
   \<not> NaN \<le> float64_of_int 1 \<and>
   Min_it (FromSlice [float64_of_int 1, NaN, float64_of_int 2]) =
     Some (Some (float64_of_int 1), FromSlice []) \<and>
   Max_it (FromSlice [NaN, float64_of_int 1, float64_of_int 2]) = Some (Some NaN, FromSlice []) \<and>
   \<not> float64_of_int 2 \<le> NaN \<and>
   Max_it (FromSlice [float64_of_int 1, NaN, float64_of_int 2]) =
     Some (Some (float64_of_int 2), FromSlice [])"
  by (simp add: Min_it_def Max_it_def Next_FromSlice_Cons Reduce_drains [OF drains_FromSlice]
      float64_of_int_small less_float64_def less_eq_float64_def)

section \<open>\<open>Take\<close>\<close>

lemma Next_Take:
  "Next (Take frm n) =
     (if n \<le> 0 then Some (None, Take frm n)
      else (case Next frm of
              None \<Rightarrow> None
            | Some (Some item, frm') \<Rightarrow> Some (Some item, Take frm' (n - 1))
            | Some (None, frm') \<Rightarrow> Some (None, Take frm' n)))"
  by (simp add: Next_def Take_def takeIterator_Next_def split: option.splits)

lemma exhausted_Take_nonpos:
  assumes "n \<le> 0"
  shows "exhausted (Take frm n)"
  by (rule exhausted_fixed) (simp add: Next_Take assms)

lemma pulls_Take_nonpos:
  assumes "n \<le> 0"
  shows "pulls k (Take frm n) = Some (replicate k None, Take frm n)"
  by (induction k) (simp_all add: Next_Take assms)

lemma drains_Take_pulls:
  assumes "pulls k frm = Some (map Some xs, frm')"
  shows "drains (Take frm (int k)) xs (Take frm' 0)"
  using assms
proof (induction k arbitrary: frm xs)
  case 0
  then show ?case by (auto intro!: drains_Nil simp: Next_Take)
next
  case (Suc k)
  from Suc.prems obtain r it1 rs where
    n: "Next frm = Some (r, it1)" and p: "pulls k it1 = Some (rs, frm')" and
    rs: "r # rs = map Some xs"
    by (auto split: option.splits)
  from rs obtain x xs' where xs: "xs = x # xs'" "r = Some x" "rs = map Some xs'"
    by (cases xs) auto
  from Suc.IH [of it1 xs'] p xs have "drains (Take it1 (int k)) xs' (Take frm' 0)" by simp
  moreover have "Next (Take frm (int (Suc k))) = Some (Some x, Take it1 (int k))"
    using n xs by (simp add: Next_Take)
  ultimately show ?case unfolding xs(1) by (rule drains_Cons [rotated])
qed

lemma Next_Probed:
  "Next (Probed frm c) =
     (case Next frm of None \<Rightarrow> None | Some (r, frm') \<Rightarrow> Some (r, Probed frm' (c + 1)))"
  by (simp add: Next_def Probed_def probe_Next_def split: option.splits)

lemma pulls_Probed:
  assumes "pulls k frm = Some (rs, frm')"
  shows "pulls k (Probed frm c) = Some (rs, Probed frm' (c + k))"
  using assms
proof (induction k arbitrary: frm rs c)
  case 0
  then show ?case by simp
next
  case (Suc k)
  from Suc.prems obtain r it1 rs' where
    n: "Next frm = Some (r, it1)" and p: "pulls k it1 = Some (rs', frm')" and rs: "rs = r # rs'"
    by (auto split: option.splits)
  from Suc.IH [OF p, of "c + 1"] n rs show ?case by (simp add: Next_Probed)
qed

text \<open>
  Claim C4. With an allowance \<open>n \<le> 0\<close>, every call of \<open>Next\<close> on \<open>Take frm n\<close> reports false
  and leaves the iterator, the upstream in it included, as it was: the upstream is not
  pulled. With \<open>n > 0\<close> and an upstream whose first \<open>n\<close> pulls yield the items \<open>xs\<close>,
  pulling \<open>Take frm n\<close> until it reports false yields exactly \<open>xs\<close>, in this order; the
  upstream is left as its first \<open>n\<close> pulls left it, a probe in front of it has counted
  \<open>n\<close> pulls, and the iterator is exhausted afterwards.
\<close>

theorem Take_first_n:
  "(n \<le> 0 \<longrightarrow> pulls k (Take frm n) = Some (replicate k None, Take frm n)) \<and>
   (0 < n \<longrightarrow> pulls (nat n) frm = Some (map Some xs, frm') \<longrightarrow>
      ToSlice (Take frm n) = Some (xs, Take frm' 0) \<and>
      exhausted (Take frm' 0) \<and>
      ToSlice (Take (Probe frm) n) = Some (xs, Take (Probed frm' (nat n)) 0))"
proof (intro conjI impI)
  assume "n \<le> 0"
  then show "pulls k (Take frm n) = Some (replicate k None, Take frm n)"
    by (rule pulls_Take_nonpos)
next
  assume n: "0 < n" and p: "pulls (nat n) frm = Some (map Some xs, frm')"
  from drains_Take_pulls [OF p] n show "ToSlice (Take frm n) = Some (xs, Take frm' 0)"
    by (simp add: ToSlice_iff)
  show "exhausted (Take frm' 0)" by (rule exhausted_Take_nonpos) simp
  from pulls_Probed [OF p, of 0] have "pulls (nat n) (Probe frm) = Some (map Some xs, Probed frm' (nat n))"
    by (simp add: Probe_def)
  from drains_Take_pulls [OF this] n
  show "ToSlice (Take (Probe frm) n) = Some (xs, Take (Probed frm' (nat n)) 0)"
    by (simp add: ToSlice_iff)
qed

lemma Next_Repeat: "Next (Repeat x) = Some (Some x, Repeat x)"
  by (simp add: Next_def Repeat_def repeatIterator_Next_def)

theorem Take_first_n_witness:
  "pulls 3 (Take (FromSlice [1, 2, 3 :: int]) (- 1)) =
     Some ([None, None, None], Take (FromSlice [1, 2, 3]) (- 1)) \<and>
   ToSlice (Take (FromSlice [1, 2, 3 :: int]) 2) = Some ([1, 2], Take (FromSlice [3]) 0) \<and>
   exhausted (Take (FromSlice [3 :: int]) 0) \<and>
   ToSlice (Take (Probe (FromSlice [1, 2, 3 :: int])) 2) =
     Some ([1, 2], Take (Probed (FromSlice [3]) 2) 0) \<and>
   ToSlice (Take (Repeat (1337 :: int)) 4) = Some ([1337, 1337, 1337, 1337], Take (Repeat 1337) 0)"
proof -
  have a: "pulls (nat 2) (FromSlice [1, 2, 3 :: int]) = Some (map Some [1, 2], FromSlice [3])"
    by (simp add: eval_nat_numeral Next_FromSlice_Cons)
  have b: "pulls (nat 4) (Repeat (1337 :: int)) = Some (map Some [1337, 1337, 1337, 1337], Repeat 1337)"
    by (simp add: eval_nat_numeral Next_Repeat)
  have c: "(- 1 :: int) \<le> 0" and d: "(0 :: int) < 2" and e: "(0 :: int) < 4" by simp_all
  from Take_first_n [of "- 1" 3 "FromSlice [1, 2, 3 :: int]", THEN conjunct1, rule_format, OF c]
    Take_first_n [of 2 _ "FromSlice [1, 2, 3 :: int]", THEN conjunct2, rule_format, OF d a]
    Take_first_n [of 4 _ "Repeat (1337 :: int)", THEN conjunct2, rule_format, OF e b]
  show ?thesis by (simp add: eval_nat_numeral)
qed

section \<open>\<open>Flatten\<close>\<close>

lemma drains_cong_Next:
  assumes "Next a = Next b"
  shows "drains a xs c = drains b xs c"
proof
  assume "drains a xs c"
  then show "drains b xs c"
    by (cases rule: drains.cases) (use assms in \<open>auto intro: drains.intros\<close>)
next
  assume "drains b xs c"
  then show "drains a xs c"
    by (cases rule: drains.cases) (use assms in \<open>auto intro: drains.intros\<close>)
qed

lemma Flatten_eq_at: "Flatten frm f = Flatten_at frm None f"
  by (simp add: Flatten_def Flatten_at_def)

lemma Next_Flatten_at:
  "Next (Flatten_at frm head f) =
     (case flattenIterator_Next \<lparr>flatten_from = frm, flatten_head = head, flatten_mapFunc = f\<rparr> of
        None \<Rightarrow> None
      | Some (r, s') \<Rightarrow>
          Some (r, \<lparr>self = s', next_impl = flattenIterator_Next, count_impl = None\<rparr>))"
  by (simp add: Next_def Flatten_at_def split: option.splits)

lemma flattenIterator_Next_None:
  "flattenIterator_Next \<lparr>flatten_from = frm, flatten_head = None, flatten_mapFunc = f\<rparr> =
     (case Next frm of
        None \<Rightarrow> None
      | Some (None, frm') \<Rightarrow>
          Some (None, \<lparr>flatten_from = frm', flatten_head = None, flatten_mapFunc = f\<rparr>)
      | Some (Some item, frm') \<Rightarrow>
          flattenIterator_Next
            \<lparr>flatten_from = frm', flatten_head = Some (f item), flatten_mapFunc = f\<rparr>)"
  by (subst flattenIterator_Next.simps) (simp split: option.splits)


lemma Next_Flatten_at_None:
  "Next (Flatten_at frm None f) =
     (case Next frm of
        None \<Rightarrow> None
      | Some (None, frm') \<Rightarrow> Some (None, Flatten_at frm' None f)
      | Some (Some item, frm') \<Rightarrow> Next (Flatten_at frm' (Some (f item)) f))"
  unfolding Next_Flatten_at
  by (simp add: flattenIterator_Next_None Flatten_at_def split: option.splits)




lemma flattenIterator_Next_result:
  assumes "flattenIterator_Next s = Some res"
  shows "flatten_mapFunc (snd res) = flatten_mapFunc s \<and>
         reaches (flatten_from s) (flatten_from (snd res)) \<and>
         (fst res = None \<longrightarrow>
            flatten_head (snd res) = None \<and>
            (\<exists>o1. reaches (flatten_from s) o1 \<and> Next o1 = Some (None, flatten_from (snd res))) \<and>
            (\<forall>h. flatten_head s = Some h \<longrightarrow> (\<exists>h'. Next h = Some (None, h'))))"
  using assms
proof (induction s res rule: flattenIterator_Next.raw_induct [rotated 1, consumes 1, case_names step])
  case (step nxt s res)
  show ?case
  proof (cases "flatten_head s")
    case None
    note hd = this
    show ?thesis
    proof (cases "Next (flatten_from s)")
      case None
      with hd step(2) show ?thesis by simp
    next
      case (Some p)
      obtain r frm' where p: "p = (r, frm')" by (cases p)
      show ?thesis
      proof (cases r)
        case None
        with hd Some p step(2) show ?thesis
          by (auto intro: reaches_Next reaches_refl)
      next
        case (Some item)
        with hd \<open>Next (flatten_from s) = Some p\<close> p step(2)
        have "nxt (s\<lparr>flatten_from := frm', flatten_head := Some (flatten_mapFunc s item)\<rparr>) = Some res"
          by simp
        from step(1) [OF this] Some \<open>Next (flatten_from s) = Some p\<close> p hd show ?thesis
          by (auto intro: reaches_Next_first)
      qed
    qed
  next
    case (Some h)
    note hd = this
    show ?thesis
    proof (cases "Next h")
      case None
      with hd step(2) show ?thesis by simp
    next
      case (Some p)
      obtain r h' where p: "p = (r, h')" by (cases p)
      show ?thesis
      proof (cases r)
        case None
        with hd Some p step(2) have "nxt (s\<lparr>flatten_head := None\<rparr>) = Some res" by simp
        from step(1) [OF this] None Some p hd show ?thesis by auto
      next
        case (Some item)
        with hd \<open>Next h = Some p\<close> p step(2) show ?thesis
          by (auto intro: reaches_refl)
      qed
    qed
  qed
qed

lemma Next_Flatten_at_result:
  assumes "Next (Flatten_at frm head f) = Some (r, it')"
  shows "\<exists>frm' head'. it' = Flatten_at frm' head' f \<and> reaches frm frm' \<and>
         (r = None \<longrightarrow> head' = None \<and> (\<exists>o1. reaches frm o1 \<and> Next o1 = Some (None, frm')) \<and>
            (\<forall>h. head = Some h \<longrightarrow> (\<exists>h'. Next h = Some (None, h'))))"
proof -
  from assms obtain s' where
    s: "flattenIterator_Next \<lparr>flatten_from = frm, flatten_head = head, flatten_mapFunc = f\<rparr> = Some (r, s')"
    and it': "it' = \<lparr>self = s', next_impl = flattenIterator_Next, count_impl = None\<rparr>"
    by (auto simp: Next_Flatten_at split: option.splits)
  from flattenIterator_Next_result [OF s]
  have m: "flatten_mapFunc s' = f" and re: "reaches frm (flatten_from s')"
    and ab: "r = None \<longrightarrow> flatten_head s' = None \<and>
      (\<exists>o1. reaches frm o1 \<and> Next o1 = Some (None, flatten_from s')) \<and>
      (\<forall>h. head = Some h \<longrightarrow> (\<exists>h'. Next h = Some (None, h')))"
    by simp_all
  have "it' = Flatten_at (flatten_from s') (flatten_head s') f"
    unfolding it' Flatten_at_def using m by simp
  with re ab show ?thesis by blast
qed

lemma exhausted_Flatten_at:
  assumes "exhausted frm"
  shows "exhausted (Flatten_at frm None f)"
  using assms
proof (coinduction arbitrary: frm)
  case exhausted
  then obtain frm' where "Next frm = Some (None, frm')" "exhausted frm'"
    by (rule exhausted_Next)
  then show ?case by (auto simp: Next_Flatten_at_None)
qed



section \<open>\<open>Range\<close>\<close>

lemma Next_Range_at:
  "Next (Range_at start end' step) =
     (if end' \<le> start then Some (None, Range_at start end' step)
      else Some (Some start, Range_at (start + step) end' step))"
  by (simp add: Next_def Range_at_def rangeIterator_Next_def)





subsection \<open>Signed integers\<close>





subsection \<open>Unsigned integers\<close>





subsection \<open>\<open>float64\<close>\<close>



subsection \<open>The claim\<close>




section \<open>\<open>FromChannel\<close>\<close>

text \<open>
  The receiving side alone: from a closed channel the iterator yields the queued items
  in the order of the queue and then reports false.
\<close>

lemma Next_FromChannel:
  "Next (FromChannel c) =
     (case chan_queue c of
        item # rest \<Rightarrow> Some (Some item, FromChannel (c\<lparr>chan_queue := rest\<rparr>))
      | [] \<Rightarrow> if chan_closed c then Some (None, FromChannel c) else None)"
  by (simp add: Next_def FromChannel_def channelIterator_Next_def recv_def split: list.splits)

lemma ToSlice_FromChannel_closed:
  "ToSlice (FromChannel \<lparr>chan_queue = xs, chan_closed = True\<rparr>) =
     Some (xs, FromChannel \<lparr>chan_queue = [], chan_closed = True\<rparr>)"
proof -
  have "drains (FromChannel \<lparr>chan_queue = xs, chan_closed = True\<rparr>) xs
      (FromChannel \<lparr>chan_queue = [], chan_closed = True\<rparr>)"
    by (induction xs) (auto intro: drains.intros simp: Next_FromChannel)
  then show ?thesis by (simp add: ToSlice_iff)
qed

section \<open>Exhaustion is sticky\<close>

lemma stickyI:
  assumes "I it"
    and step: "\<And>a r b. I a \<Longrightarrow> Next a = Some (r, b) \<Longrightarrow> I b"
    and absent: "\<And>a b. I a \<Longrightarrow> Next a = Some (None, b) \<Longrightarrow> exhausted b"
  shows "sticky it"
proof -
  have "I it1" if "reaches it it1" for it1
    using that assms(1) by (induction rule: reaches.induct) (auto intro: step)
  then show ?thesis unfolding sticky_def by (blast intro: absent)
qed

lemma stickyD:
  assumes "sticky it" and "reaches it it1" and "Next it1 = Some (None, it2)"
  shows "exhausted it2"
  using assms unfolding sticky_def by blast

subsection \<open>Sources\<close>

lemma sticky_Empty: "sticky Empty"
proof (rule stickyI [where I = "\<lambda>it. it = Empty"])
  show "Empty = Empty" ..
next
  fix a :: "(unit, 'a) Iterator" and r b
  assume "a = Empty" "Next a = Some (r, b)"
  then show "b = Empty" by (simp add: Next_Empty)
next
  fix a b :: "(unit, 'a) Iterator"
  assume "a = Empty" "Next a = Some (None, b)"
  then have "Next b = Some (None, b)" by (simp add: Next_Empty)
  then show "exhausted b" by (rule exhausted_fixed)
qed

lemma sticky_Range_at: "sticky (Range_at start end' step)"
proof (rule stickyI [where I = "\<lambda>it. \<exists>s. it = Range_at s end' step"])
  show "\<exists>s. Range_at start end' step = Range_at s end' step" by blast
next
  fix a r b
  assume "\<exists>s. a = Range_at s end' step" "Next a = Some (r, b)"
  then show "\<exists>s. b = Range_at s end' step"
    by (auto simp: Next_Range_at split: if_splits)
next
  fix a b
  assume "\<exists>s. a = Range_at s end' step" "Next a = Some (None, b)"
  then have "Next b = Some (None, b)" by (auto simp: Next_Range_at split: if_splits)
  then show "exhausted b" by (rule exhausted_fixed)
qed

lemma sticky_FromSlice: "sticky (FromSlice xs)"
proof (rule stickyI [where I = "\<lambda>it. \<exists>ys. it = FromSlice ys"])
  show "\<exists>ys. FromSlice xs = FromSlice ys" by blast
next
  fix a :: "('a sliceIterator, 'a) Iterator" and r b
  assume "\<exists>ys. a = FromSlice ys" and n: "Next a = Some (r, b)"
  then obtain ys where "a = FromSlice ys" by blast
  with n show "\<exists>ys. b = FromSlice ys"
    by (cases ys) (auto simp: Next_FromSlice_Nil Next_FromSlice_Cons)
next
  fix a b :: "('a sliceIterator, 'a) Iterator"
  assume "\<exists>ys. a = FromSlice ys" and n: "Next a = Some (None, b)"
  then obtain ys where "a = FromSlice ys" by blast
  with n have "b = FromSlice []"
    by (cases ys) (auto simp: Next_FromSlice_Nil Next_FromSlice_Cons)
  then show "exhausted b" by (simp add: exhausted_FromSlice_Nil)
qed

lemma Next_Once_state:
  "Next \<lparr>self = \<lparr>once_item = oi\<rparr>, next_impl = onceIterator_Next, count_impl = None\<rparr> =
     Some (oi, \<lparr>self = \<lparr>once_item = None\<rparr>, next_impl = onceIterator_Next, count_impl = None\<rparr>)"
  by (cases oi) (simp_all add: Next_def onceIterator_Next_def)

lemma sticky_Once: "sticky (Once x)"
proof (rule stickyI [where I = "\<lambda>it. \<exists>oi. it =
    \<lparr>self = \<lparr>once_item = oi\<rparr>, next_impl = onceIterator_Next, count_impl = None\<rparr>"])
  show "\<exists>oi. Once x = \<lparr>self = \<lparr>once_item = oi\<rparr>, next_impl = onceIterator_Next, count_impl = None\<rparr>"
    by (simp add: Once_def)
next
  fix a :: "('a onceIterator, 'a) Iterator" and r b
  assume "\<exists>oi. a = \<lparr>self = \<lparr>once_item = oi\<rparr>, next_impl = onceIterator_Next, count_impl = None\<rparr>"
    and "Next a = Some (r, b)"
  then show "\<exists>oi. b = \<lparr>self = \<lparr>once_item = oi\<rparr>, next_impl = onceIterator_Next, count_impl = None\<rparr>"
    by (auto simp: Next_Once_state)
next
  fix a b :: "('a onceIterator, 'a) Iterator"
  assume "\<exists>oi. a = \<lparr>self = \<lparr>once_item = oi\<rparr>, next_impl = onceIterator_Next, count_impl = None\<rparr>"
    and "Next a = Some (None, b)"
  then have "Next b = Some (None, b)" by (auto simp: Next_Once_state)
  then show "exhausted b" by (rule exhausted_fixed)
qed

lemma sticky_FromChannel: "sticky (FromChannel c)"
proof (rule stickyI [where I = "\<lambda>it. \<exists>c'. it = FromChannel c'"])
  show "\<exists>c'. FromChannel c = FromChannel c'" by blast
next
  fix a :: "('a chan, 'a) Iterator" and r b
  assume "\<exists>c'. a = FromChannel c'" "Next a = Some (r, b)"
  then show "\<exists>c'. b = FromChannel c'"
    by (auto simp: Next_FromChannel split: list.splits if_splits)
next
  fix a b :: "('a chan, 'a) Iterator"
  assume "\<exists>c'. a = FromChannel c'" "Next a = Some (None, b)"
  then have "Next b = Some (None, b)"
    by (auto simp: Next_FromChannel split: list.splits if_splits)
  then show "exhausted b" by (rule exhausted_fixed)
qed

subsection \<open>Adapters\<close>

lemma Next_Map:
  "Next (Map frm f) =
     (case Next frm of
        None \<Rightarrow> None
      | Some (None, frm') \<Rightarrow> Some (None, Map frm' f)
      | Some (Some item, frm') \<Rightarrow>
          (case f item of None \<Rightarrow> None | Some mapped \<Rightarrow> Some (Some mapped, Map frm' f)))"
proof -
  have "Next (Map frm f) =
     (case mapIterator_Next \<lparr>map_from = frm, mapFunc = f\<rparr> of
        None \<Rightarrow> None
      | Some (r, s') \<Rightarrow>
          Some (r, \<lparr>self = s', next_impl = mapIterator_Next, count_impl = Some mapIterator_Count\<rparr>))"
    by (simp add: Next_def Map_def split: option.splits)
  then show ?thesis
    by (simp add: mapIterator_Next_def Map_def split: option.splits)
qed

lemma exhausted_Map:
  assumes "exhausted frm"
  shows "exhausted (Map frm f)"
  using assms
proof (coinduction arbitrary: frm)
  case exhausted
  then obtain frm' where "Next frm = Some (None, frm')" "exhausted frm'"
    by (rule exhausted_Next)
  then show ?case by (auto simp: Next_Map)
qed

lemma sticky_Map:
  assumes "sticky frm"
  shows "sticky (Map frm f)"
proof (rule stickyI [where I = "\<lambda>it. \<exists>frm'. it = Map frm' f \<and> reaches frm frm'"])
  show "\<exists>frm'. Map frm f = Map frm' f \<and> reaches frm frm'" by (blast intro: reaches_refl)
next
  fix a r b
  assume "\<exists>frm'. a = Map frm' f \<and> reaches frm frm'" and n: "Next a = Some (r, b)"
  then obtain frm' where a: "a = Map frm' f" "reaches frm frm'" by blast
  with n obtain r' frm'' where n': "Next frm' = Some (r', frm'')"
    by (cases "Next frm'") (auto simp: Next_Map)
  with n a have "b = Map frm'' f"
    by (cases r') (auto simp: Next_Map split: option.splits)
  with reaches_step [OF a(2) n'] show "\<exists>frm'. b = Map frm' f \<and> reaches frm frm'" by blast
next
  fix a b
  assume "\<exists>frm'. a = Map frm' f \<and> reaches frm frm'" and n: "Next a = Some (None, b)"
  then obtain frm' where a: "a = Map frm' f" "reaches frm frm'" by blast
  with n obtain frm'' where "Next frm' = Some (None, frm'')" "b = Map frm'' f"
    by (auto simp: Next_Map split: option.splits)
  with stickyD [OF assms a(2)] show "exhausted b" by (simp add: exhausted_Map)
qed

lemma exhausted_Take:
  assumes "exhausted frm"
  shows "exhausted (Take frm n)"
  using assms
proof (coinduction arbitrary: frm)
  case exhausted
  then obtain frm' where "Next frm = Some (None, frm')" "exhausted frm'"
    by (rule exhausted_Next)
  with exhausted show ?case by (auto simp: Next_Take)
qed

lemma sticky_Take:
  assumes "sticky frm"
  shows "sticky (Take frm n)"
proof (rule stickyI [where I = "\<lambda>it. \<exists>frm' n'. it = Take frm' n' \<and> reaches frm frm'"])
  show "\<exists>frm' n'. Take frm n = Take frm' n' \<and> reaches frm frm'" by (blast intro: reaches_refl)
next
  fix a r b
  assume "\<exists>frm' n'. a = Take frm' n' \<and> reaches frm frm'" and n: "Next a = Some (r, b)"
  then obtain frm' n' where a: "a = Take frm' n'" "reaches frm frm'" by blast
  show "\<exists>frm' n'. b = Take frm' n' \<and> reaches frm frm'"
  proof (cases "n' \<le> 0")
    case True
    with n a have "b = Take frm' n'" by (simp add: Next_Take)
    with a(2) show ?thesis by blast
  next
    case False
    with n a obtain r' frm'' where n': "Next frm' = Some (r', frm'')"
      by (cases "Next frm'") (auto simp: Next_Take)
    with n a False have "b = Take frm'' n' \<or> b = Take frm'' (n' - 1)"
      by (cases r') (auto simp: Next_Take)
    with reaches_step [OF a(2) n'] show ?thesis by blast
  qed
next
  fix a b
  assume "\<exists>frm' n'. a = Take frm' n' \<and> reaches frm frm'" and n: "Next a = Some (None, b)"
  then obtain frm' n' where a: "a = Take frm' n'" "reaches frm frm'" by blast
  show "exhausted b"
  proof (cases "n' \<le> 0")
    case True
    with n a have "b = Take frm' n'" by (simp add: Next_Take)
    with True show ?thesis by (simp add: exhausted_Take_nonpos)
  next
    case False
    with n a obtain frm'' where "Next frm' = Some (None, frm'')" "b = Take frm'' n'"
      by (auto simp: Next_Take split: option.splits)
    with stickyD [OF assms a(2)] show ?thesis by (simp add: exhausted_Take)
  qed
qed

text \<open>\<open>Filter\<close>\<close>

lemma filterIterator_Next_result:
  assumes "filterIterator_Next s = Some res"
  shows "filterFunc (snd res) = filterFunc s \<and>
         reaches (filter_from s) (filter_from (snd res)) \<and>
         (fst res = None \<longrightarrow>
            (\<exists>o1. reaches (filter_from s) o1 \<and> Next o1 = Some (None, filter_from (snd res))))"
  using assms
proof (induction s res rule: filterIterator_Next.raw_induct [rotated 1, consumes 1, case_names step])
  case (step nxt s res)
  show ?case
  proof (cases "Next (filter_from s)")
    case None
    with step(2) show ?thesis by simp
  next
    case (Some p)
    obtain r frm' where p: "p = (r, frm')" by (cases p)
    show ?thesis
    proof (cases r)
      case None
      with Some p step(2) show ?thesis by (auto intro: reaches_Next reaches_refl)
    next
      case (Some item)
      note r = this
      show ?thesis
      proof (cases "filterFunc s item")
        case True
        with r \<open>Next (filter_from s) = Some p\<close> p step(2) show ?thesis
          by (auto intro: reaches_Next)
      next
        case False
        with r \<open>Next (filter_from s) = Some p\<close> p step(2)
        have "nxt (s\<lparr>filter_from := frm'\<rparr>) = Some res" by simp
        from step(1) [OF this] r \<open>Next (filter_from s) = Some p\<close> p show ?thesis
          by (auto intro: reaches_Next_first)
      qed
    qed
  qed
qed

lemma Next_Filter:
  "Next (Filter frm p) =
     (case filterIterator_Next \<lparr>filter_from = frm, filterFunc = p\<rparr> of
        None \<Rightarrow> None
      | Some (r, s') \<Rightarrow> Some (r, \<lparr>self = s', next_impl = filterIterator_Next, count_impl = None\<rparr>))"
  by (simp add: Next_def Filter_def split: option.splits)

lemma Next_Filter_result:
  assumes "Next (Filter frm p) = Some (r, it')"
  shows "\<exists>frm'. it' = Filter frm' p \<and> reaches frm frm' \<and>
         (r = None \<longrightarrow> (\<exists>o1. reaches frm o1 \<and> Next o1 = Some (None, frm')))"
proof -
  from assms obtain s' where
    s: "filterIterator_Next \<lparr>filter_from = frm, filterFunc = p\<rparr> = Some (r, s')"
    and it': "it' = \<lparr>self = s', next_impl = filterIterator_Next, count_impl = None\<rparr>"
    by (auto simp: Next_Filter split: option.splits)
  from filterIterator_Next_result [OF s]
  have m: "filterFunc s' = p" and re: "reaches frm (filter_from s')"
    and ab: "r = None \<longrightarrow> (\<exists>o1. reaches frm o1 \<and> Next o1 = Some (None, filter_from s'))"
    by simp_all
  have "it' = Filter (filter_from s') p"
    unfolding it' Filter_def using m by simp
  with re ab show ?thesis by blast
qed

lemma Next_Filter_absent:
  assumes "Next frm = Some (None, frm')"
  shows "Next (Filter frm p) = Some (None, Filter frm' p)"
  unfolding Next_Filter
  by (subst filterIterator_Next.simps) (simp add: assms Filter_def)

lemma exhausted_Filter:
  assumes "exhausted frm"
  shows "exhausted (Filter frm p)"
  using assms
proof (coinduction arbitrary: frm)
  case exhausted
  then obtain frm' where "Next frm = Some (None, frm')" "exhausted frm'"
    by (rule exhausted_Next)
  then show ?case by (auto simp: Next_Filter_absent)
qed

lemma sticky_Filter:
  assumes "sticky frm"
  shows "sticky (Filter frm p)"
proof (rule stickyI [where I = "\<lambda>it. \<exists>frm'. it = Filter frm' p \<and> reaches frm frm'"])
  show "\<exists>frm'. Filter frm p = Filter frm' p \<and> reaches frm frm'" by (blast intro: reaches_refl)
next
  fix a r b
  assume "\<exists>frm'. a = Filter frm' p \<and> reaches frm frm'" and n: "Next a = Some (r, b)"
  then obtain frm' where a: "a = Filter frm' p" "reaches frm frm'" by blast
  from Next_Filter_result [OF n [unfolded a(1)]] a(2)
  show "\<exists>frm'. b = Filter frm' p \<and> reaches frm frm'"
    by (blast intro: reaches_trans)
next
  fix a b
  assume "\<exists>frm'. a = Filter frm' p \<and> reaches frm frm'" and n: "Next a = Some (None, b)"
  then obtain frm' where a: "a = Filter frm' p" "reaches frm frm'" by blast
  from Next_Filter_result [OF n [unfolded a(1)]] obtain frm'' o1 where
    b: "b = Filter frm'' p" and o: "reaches frm' o1" "Next o1 = Some (None, frm'')"
    by blast
  from stickyD [OF assms reaches_trans [OF o(1) a(2)] o(2)] b
  show "exhausted b" by (simp add: exhausted_Filter)
qed

text \<open>\<open>FilterMap\<close>\<close>

lemma filterMapIterator_Next_result:
  assumes "filterMapIterator_Next s = Some res"
  shows "filterMap_mapFunc (snd res) = filterMap_mapFunc s \<and>
         reaches (filterMap_from s) (filterMap_from (snd res)) \<and>
         (fst res = None \<longrightarrow>
            (\<exists>o1. reaches (filterMap_from s) o1 \<and> Next o1 = Some (None, filterMap_from (snd res))))"
  using assms
proof (induction s res rule: filterMapIterator_Next.raw_induct [rotated 1, consumes 1, case_names step])
  case (step nxt s res)
  show ?case
  proof (cases "Next (filterMap_from s)")
    case None
    with step(2) show ?thesis by simp
  next
    case (Some p)
    obtain r frm' where p: "p = (r, frm')" by (cases p)
    show ?thesis
    proof (cases r)
      case None
      with Some p step(2) show ?thesis by (auto intro: reaches_Next reaches_refl)
    next
      case (Some item)
      note r = this
      obtain mapped ok where m: "filterMap_mapFunc s item = (mapped, ok)"
        by (cases "filterMap_mapFunc s item")
      show ?thesis
      proof (cases ok)
        case True
        with r m \<open>Next (filterMap_from s) = Some p\<close> p step(2) show ?thesis
          by (auto intro: reaches_Next)
      next
        case False
        with r m \<open>Next (filterMap_from s) = Some p\<close> p step(2)
        have "nxt (s\<lparr>filterMap_from := frm'\<rparr>) = Some res" by simp
        from step(1) [OF this] r \<open>Next (filterMap_from s) = Some p\<close> p show ?thesis
          by (auto intro: reaches_Next_first)
      qed
    qed
  qed
qed

lemma Next_FilterMap:
  "Next (FilterMap frm g) =
     (case filterMapIterator_Next \<lparr>filterMap_from = frm, filterMap_mapFunc = g\<rparr> of
        None \<Rightarrow> None
      | Some (r, s') \<Rightarrow>
          Some (r, \<lparr>self = s', next_impl = filterMapIterator_Next, count_impl = None\<rparr>))"
  by (simp add: Next_def FilterMap_def split: option.splits)

lemma Next_FilterMap_result:
  assumes "Next (FilterMap frm g) = Some (r, it')"
  shows "\<exists>frm'. it' = FilterMap frm' g \<and> reaches frm frm' \<and>
         (r = None \<longrightarrow> (\<exists>o1. reaches frm o1 \<and> Next o1 = Some (None, frm')))"
proof -
  from assms obtain s' where
    s: "filterMapIterator_Next \<lparr>filterMap_from = frm, filterMap_mapFunc = g\<rparr> = Some (r, s')"
    and it': "it' = \<lparr>self = s', next_impl = filterMapIterator_Next, count_impl = None\<rparr>"
    by (auto simp: Next_FilterMap split: option.splits)
  from filterMapIterator_Next_result [OF s]
  have m: "filterMap_mapFunc s' = g" and re: "reaches frm (filterMap_from s')"
    and ab: "r = None \<longrightarrow> (\<exists>o1. reaches frm o1 \<and> Next o1 = Some (None, filterMap_from s'))"
    by simp_all
  have "it' = FilterMap (filterMap_from s') g"
    unfolding it' FilterMap_def using m by simp
  with re ab show ?thesis by blast
qed

lemma Next_FilterMap_absent:
  assumes "Next frm = Some (None, frm')"
  shows "Next (FilterMap frm g) = Some (None, FilterMap frm' g)"
  unfolding Next_FilterMap
  by (subst filterMapIterator_Next.simps) (simp add: assms FilterMap_def)

lemma exhausted_FilterMap:
  assumes "exhausted frm"
  shows "exhausted (FilterMap frm g)"
  using assms
proof (coinduction arbitrary: frm)
  case exhausted
  then obtain frm' where "Next frm = Some (None, frm')" "exhausted frm'"
    by (rule exhausted_Next)
  then show ?case by (auto simp: Next_FilterMap_absent)
qed

lemma sticky_FilterMap:
  assumes "sticky frm"
  shows "sticky (FilterMap frm g)"
proof (rule stickyI [where I = "\<lambda>it. \<exists>frm'. it = FilterMap frm' g \<and> reaches frm frm'"])
  show "\<exists>frm'. FilterMap frm g = FilterMap frm' g \<and> reaches frm frm'"
    by (blast intro: reaches_refl)
next
  fix a r b
  assume "\<exists>frm'. a = FilterMap frm' g \<and> reaches frm frm'" and n: "Next a = Some (r, b)"
  then obtain frm' where a: "a = FilterMap frm' g" "reaches frm frm'" by blast
  from Next_FilterMap_result [OF n [unfolded a(1)]] a(2)
  show "\<exists>frm'. b = FilterMap frm' g \<and> reaches frm frm'"
    by (blast intro: reaches_trans)
next
  fix a b
  assume "\<exists>frm'. a = FilterMap frm' g \<and> reaches frm frm'" and n: "Next a = Some (None, b)"
  then obtain frm' where a: "a = FilterMap frm' g" "reaches frm frm'" by blast
  from Next_FilterMap_result [OF n [unfolded a(1)]] obtain frm'' o1 where
    b: "b = FilterMap frm'' g" and o: "reaches frm' o1" "Next o1 = Some (None, frm'')"
    by blast
  from stickyD [OF assms reaches_trans [OF o(1) a(2)] o(2)] b
  show "exhausted b" by (simp add: exhausted_FilterMap)
qed

text \<open>\<open>Flatten\<close>, both revisions\<close>

lemma sticky_Flatten_at:
  assumes "sticky frm"
  shows "sticky (Flatten_at frm head f)"
proof (rule stickyI [where I = "\<lambda>it. \<exists>frm' head'. it = Flatten_at frm' head' f \<and> reaches frm frm'"])
  show "\<exists>frm' head'. Flatten_at frm head f = Flatten_at frm' head' f \<and> reaches frm frm'"
    by (blast intro: reaches_refl)
next
  fix a r b
  assume "\<exists>frm' head'. a = Flatten_at frm' head' f \<and> reaches frm frm'" and n: "Next a = Some (r, b)"
  then obtain frm' head' where a: "a = Flatten_at frm' head' f" "reaches frm frm'" by blast
  from Next_Flatten_at_result [OF n [unfolded a(1)]] a(2)
  show "\<exists>frm' head'. b = Flatten_at frm' head' f \<and> reaches frm frm'"
    by (blast intro: reaches_trans)
next
  fix a b
  assume "\<exists>frm' head'. a = Flatten_at frm' head' f \<and> reaches frm frm'"
    and n: "Next a = Some (None, b)"
  then obtain frm' head' where a: "a = Flatten_at frm' head' f" "reaches frm frm'" by blast
  from Next_Flatten_at_result [OF n [unfolded a(1)]] obtain frm'' o1 where
    b: "b = Flatten_at frm'' None f" and o: "reaches frm' o1" "Next o1 = Some (None, frm'')"
    by blast
  from stickyD [OF assms reaches_trans [OF o(1) a(2)] o(2)] b
  show "exhausted b" by (simp add: exhausted_Flatten_at)
qed

lemma FlattenC_eq_at: "FlattenC frm = FlattenC_at frm None"
  by (simp add: FlattenC_def FlattenC_at_def)

lemma Next_FlattenC_at:
  "Next (FlattenC_at frm head) =
     (case flattenIteratorC_Next \<lparr>flattenC_from = frm, flattenC_head = head\<rparr> of
        None \<Rightarrow> None
      | Some (r, s') \<Rightarrow>
          Some (r, \<lparr>self = s', next_impl = flattenIteratorC_Next,
                    count_impl = Some flattenIteratorC_Count\<rparr>))"
  by (simp add: Next_def FlattenC_at_def split: option.splits)

lemma flattenIteratorC_Next_None:
  "flattenIteratorC_Next \<lparr>flattenC_from = frm, flattenC_head = None\<rparr> =
     (case Next frm of
        None \<Rightarrow> None
      | Some (None, frm') \<Rightarrow> Some (None, \<lparr>flattenC_from = frm', flattenC_head = None\<rparr>)
      | Some (Some item, frm') \<Rightarrow>
          flattenIteratorC_Next \<lparr>flattenC_from = frm', flattenC_head = Some item\<rparr>)"
  by (subst flattenIteratorC_Next.simps) (simp split: option.splits)

lemma flattenIteratorC_Next_Some:
  "flattenIteratorC_Next \<lparr>flattenC_from = frm, flattenC_head = Some head\<rparr> =
     (case Next head of
        None \<Rightarrow> None
      | Some (Some item, head') \<Rightarrow>
          Some (Some item, \<lparr>flattenC_from = frm, flattenC_head = Some head'\<rparr>)
      | Some (None, head') \<Rightarrow>
          flattenIteratorC_Next \<lparr>flattenC_from = frm, flattenC_head = None\<rparr>)"
  by (subst flattenIteratorC_Next.simps) (simp split: option.splits)

lemma Next_FlattenC_at_None:
  "Next (FlattenC_at frm None) =
     (case Next frm of
        None \<Rightarrow> None
      | Some (None, frm') \<Rightarrow> Some (None, FlattenC_at frm' None)
      | Some (Some item, frm') \<Rightarrow> Next (FlattenC_at frm' (Some item)))"
  unfolding Next_FlattenC_at
  by (simp add: flattenIteratorC_Next_None FlattenC_at_def split: option.splits)

lemma Next_FlattenC_at_Some:
  "Next (FlattenC_at frm (Some head)) =
     (case Next head of
        None \<Rightarrow> None
      | Some (Some item, head') \<Rightarrow> Some (Some item, FlattenC_at frm (Some head'))
      | Some (None, head') \<Rightarrow> Next (FlattenC_at frm None))"
  unfolding Next_FlattenC_at
  by (simp add: flattenIteratorC_Next_Some FlattenC_at_def split: option.splits)

lemma flattenIteratorC_Next_result:
  assumes "flattenIteratorC_Next s = Some res"
  shows "reaches (flattenC_from s) (flattenC_from (snd res)) \<and>
         (fst res = None \<longrightarrow>
            flattenC_head (snd res) = None \<and>
            (\<exists>o1. reaches (flattenC_from s) o1 \<and> Next o1 = Some (None, flattenC_from (snd res))) \<and>
            (\<forall>h. flattenC_head s = Some h \<longrightarrow> (\<exists>h'. Next h = Some (None, h'))))"
  using assms
proof (induction s res rule: flattenIteratorC_Next.raw_induct [rotated 1, consumes 1, case_names step])
  case (step nxt s res)
  show ?case
  proof (cases "flattenC_head s")
    case None
    note hd = this
    show ?thesis
    proof (cases "Next (flattenC_from s)")
      case None
      with hd step(2) show ?thesis by simp
    next
      case (Some p)
      obtain r frm' where p: "p = (r, frm')" by (cases p)
      show ?thesis
      proof (cases r)
        case None
        with hd Some p step(2) show ?thesis
          by (auto intro: reaches_Next reaches_refl)
      next
        case (Some item)
        with hd \<open>Next (flattenC_from s) = Some p\<close> p step(2)
        have "nxt (s\<lparr>flattenC_from := frm', flattenC_head := Some item\<rparr>) = Some res"
          by simp
        from step(1) [OF this] Some \<open>Next (flattenC_from s) = Some p\<close> p hd show ?thesis
          by (auto intro: reaches_Next_first)
      qed
    qed
  next
    case (Some h)
    note hd = this
    show ?thesis
    proof (cases "Next h")
      case None
      with hd step(2) show ?thesis by simp
    next
      case (Some p)
      obtain r h' where p: "p = (r, h')" by (cases p)
      show ?thesis
      proof (cases r)
        case None
        with hd Some p step(2) have "nxt (s\<lparr>flattenC_head := None\<rparr>) = Some res" by simp
        from step(1) [OF this] None Some p hd show ?thesis by auto
      next
        case (Some item)
        with hd \<open>Next h = Some p\<close> p step(2) show ?thesis
          by (auto intro: reaches_refl)
      qed
    qed
  qed
qed

lemma Next_FlattenC_at_result:
  assumes "Next (FlattenC_at frm head) = Some (r, it')"
  shows "\<exists>frm' head'. it' = FlattenC_at frm' head' \<and> reaches frm frm' \<and>
         (r = None \<longrightarrow> head' = None \<and> (\<exists>o1. reaches frm o1 \<and> Next o1 = Some (None, frm')) \<and>
            (\<forall>h. head = Some h \<longrightarrow> (\<exists>h'. Next h = Some (None, h'))))"
proof -
  from assms obtain s' where
    s: "flattenIteratorC_Next \<lparr>flattenC_from = frm, flattenC_head = head\<rparr> = Some (r, s')"
    and it': "it' = \<lparr>self = s', next_impl = flattenIteratorC_Next,
      count_impl = Some flattenIteratorC_Count\<rparr>"
    by (auto simp: Next_FlattenC_at split: option.splits)
  from flattenIteratorC_Next_result [OF s]
  have re: "reaches frm (flattenC_from s')"
    and ab: "r = None \<longrightarrow> flattenC_head s' = None \<and>
      (\<exists>o1. reaches frm o1 \<and> Next o1 = Some (None, flattenC_from s')) \<and>
      (\<forall>h. head = Some h \<longrightarrow> (\<exists>h'. Next h = Some (None, h')))"
    by simp_all
  have "it' = FlattenC_at (flattenC_from s') (flattenC_head s')"
    unfolding it' FlattenC_at_def by simp
  with re ab show ?thesis by blast
qed

lemma exhausted_FlattenC_at:
  assumes "exhausted frm"
  shows "exhausted (FlattenC_at frm None)"
  using assms
proof (coinduction arbitrary: frm)
  case exhausted
  then obtain frm' where "Next frm = Some (None, frm')" "exhausted frm'"
    by (rule exhausted_Next)
  then show ?case by (auto simp: Next_FlattenC_at_None)
qed

lemma sticky_FlattenC_at:
  assumes "sticky frm"
  shows "sticky (FlattenC_at frm head)"
proof (rule stickyI [where I = "\<lambda>it. \<exists>frm' head'. it = FlattenC_at frm' head' \<and> reaches frm frm'"])
  show "\<exists>frm' head'. FlattenC_at frm head = FlattenC_at frm' head' \<and> reaches frm frm'"
    by (blast intro: reaches_refl)
next
  fix a r b
  assume "\<exists>frm' head'. a = FlattenC_at frm' head' \<and> reaches frm frm'" and n: "Next a = Some (r, b)"
  then obtain frm' head' where a: "a = FlattenC_at frm' head'" "reaches frm frm'" by blast
  from Next_FlattenC_at_result [OF n [unfolded a(1)]] a(2)
  show "\<exists>frm' head'. b = FlattenC_at frm' head' \<and> reaches frm frm'"
    by (blast intro: reaches_trans)
next
  fix a b
  assume "\<exists>frm' head'. a = FlattenC_at frm' head' \<and> reaches frm frm'"
    and n: "Next a = Some (None, b)"
  then obtain frm' head' where a: "a = FlattenC_at frm' head'" "reaches frm frm'" by blast
  from Next_FlattenC_at_result [OF n [unfolded a(1)]] obtain frm'' o1 where
    b: "b = FlattenC_at frm'' None" and o: "reaches frm' o1" "Next o1 = Some (None, frm'')"
    by blast
  from stickyD [OF assms reaches_trans [OF o(1) a(2)] o(2)] b
  show "exhausted b" by (simp add: exhausted_FlattenC_at)
qed

text \<open>
  Claim C3. Exhaustion is sticky for every iterator built from the sources \<open>Empty\<close>,
  \<open>Range\<close> (what \<open>Range\<close> returns is a \<open>Range_at\<close>), \<open>FromSlice\<close>, \<open>Once\<close> and \<open>FromChannel\<close> by
  the adapters \<open>Map\<close>, \<open>Filter\<close>, \<open>FilterMap\<close>, \<open>Flatten\<close> (in both revisions) and \<open>Take\<close>:
  each source is sticky, and each adapter over a sticky upstream is sticky. Sticky
  means: in any run of \<open>Next\<close> calls on the handle, once a call has reported false,
  every later call returns and reports false. For \<open>FromChannel\<close> the channel is the one
  of the model, with no sender: on a closed channel \<open>Next\<close> reports false once the queue
  is empty and keeps doing so; on an open one it never reports false.
\<close>

theorem exhaustion_is_sticky:
  "sticky (Empty :: (unit, 'e) Iterator) \<and>
   sticky (Range_at start end' step) \<and>
   sticky (FromSlice xs) \<and>
   sticky (Once x) \<and>
   sticky (FromChannel c) \<and>
   (sticky frm \<longrightarrow>
      sticky (Map frm f) \<and> sticky (Filter frm p) \<and> sticky (FilterMap frm g) \<and>
      sticky (Flatten frm h) \<and> sticky (Take frm n)) \<and>
   (sticky outer \<longrightarrow> sticky (FlattenC outer))"
  by (simp add: sticky_Empty sticky_Range_at sticky_FromSlice sticky_Once sticky_FromChannel
      sticky_Map sticky_Filter sticky_FilterMap sticky_Take
      Flatten_eq_at FlattenC_eq_at sticky_Flatten_at sticky_FlattenC_at)

theorem exhaustion_is_sticky_witness:
  "sticky (FromSlice [1, 2, 3 :: int]) \<and>
   sticky (Take (Filter (Map (FromSlice [1, 2, 3 :: int]) (\<lambda>i. Some (i * 2))) (\<lambda>i. 2 < i)) 5) \<and>
   sticky (Flatten (FilterMap (FromSlice [1, 2, 3 :: int]) (\<lambda>i. (i, i < 2))) (\<lambda>i. Once i)) \<and>
   sticky (FlattenC (FromSlice [FromSlice [1 :: int], FromSlice []]))"
proof -
  note src = exhaustion_is_sticky [THEN conjunct2, THEN conjunct2, THEN conjunct1]
  note ad = exhaustion_is_sticky [THEN conjunct2, THEN conjunct2, THEN conjunct2,
      THEN conjunct2, THEN conjunct2, THEN conjunct1, rule_format]
  note fl = exhaustion_is_sticky [THEN conjunct2, THEN conjunct2, THEN conjunct2,
      THEN conjunct2, THEN conjunct2, THEN conjunct2, rule_format]
  have a: "sticky (FromSlice [1, 2, 3 :: int])" by (rule src)
  have b: "sticky (Map (FromSlice [1, 2, 3 :: int]) (\<lambda>i. Some (i * 2)))"
    by (rule ad [OF a, THEN conjunct1])
  have c: "sticky (Filter (Map (FromSlice [1, 2, 3 :: int]) (\<lambda>i. Some (i * 2))) (\<lambda>i. 2 < i))"
    by (rule ad [OF b, THEN conjunct2, THEN conjunct1])
  have d: "sticky (Take (Filter (Map (FromSlice [1, 2, 3 :: int]) (\<lambda>i. Some (i * 2))) (\<lambda>i. 2 < i)) 5)"
    by (rule ad [OF c, THEN conjunct2, THEN conjunct2, THEN conjunct2, THEN conjunct2])
  have e: "sticky (FilterMap (FromSlice [1, 2, 3 :: int]) (\<lambda>i. (i, i < 2)))"
    by (rule ad [OF a, THEN conjunct2, THEN conjunct2, THEN conjunct1])
  have f: "sticky (Flatten (FilterMap (FromSlice [1, 2, 3 :: int]) (\<lambda>i. (i, i < 2))) (\<lambda>i. Once i))"
    by (rule ad [OF e, THEN conjunct2, THEN conjunct2, THEN conjunct2, THEN conjunct1])
  have g: "sticky (FromSlice [FromSlice [1 :: int], FromSlice []])" by (rule src)
  have h: "sticky (FlattenC (FromSlice [FromSlice [1 :: int], FromSlice []]))"
    by (rule fl [OF g])
  from a d f h show ?thesis by (intro conjI)
qed

section \<open>The \<open>Counter\<close> implementations\<close>

lemma Count_plain:
  assumes "count_impl it = None" and "drains it xs it'"
  shows "Count it = Some (int (length xs), it')"
  using Count_loop_drains [OF assms(2), of 0] assms(1) by (simp add: Count_def)

lemma counts_as_pulled_plain:
  assumes "count_impl it = None" and "drains it xs it'" and "exhausted it'"
  shows "counts_as_pulled it"
  unfolding counts_as_pulled_def
  using Count_plain [OF assms(1,2)] assms(2,3) by (auto simp: ToSlice_iff)

lemma counts_as_pulledE:
  assumes "counts_as_pulled it"
  obtains xs it1 it2 where "drains it xs it1" and "Count it = Some (int (length xs), it2)"
    and "exhausted it2"
  using assms unfolding counts_as_pulled_def ToSlice_iff by blast

subsection \<open>\<open>Map\<close>\<close>

lemma drains_Map:
  assumes "drains frm xs frm'" and "map f xs = map Some ys"
  shows "drains (Map frm f) ys (Map frm' f)"
  using assms
proof (induction arbitrary: ys rule: drains.induct)
  case (drains_Nil it it')
  then show ?case by (auto intro!: drains.drains_Nil simp: Next_Map)
next
  case (drains_Cons it x it1 xs it')
  from drains_Cons.prems obtain y ys' where ys: "ys = y # ys'" "f x = Some y" "map f xs = map Some ys'"
    by (cases ys) auto
  from drains_Cons.hyps(1) ys(2) have "Next (Map it f) = Some (Some y, Map it1 f)"
    by (simp add: Next_Map)
  with drains_Cons.IH [OF ys(3)] show ?case unfolding ys(1) by (auto intro: drains.drains_Cons)
qed

lemma Count_Map:
  "Count (Map frm f) =
     (case Count frm of None \<Rightarrow> None | Some (n, frm') \<Rightarrow> Some (n, Map frm' f))"
proof -
  have "Count (Map frm f) =
     (case mapIterator_Count \<lparr>map_from = frm, mapFunc = f\<rparr> of
        None \<Rightarrow> None
      | Some (n, s') \<Rightarrow>
          Some (n, \<lparr>self = s', next_impl = mapIterator_Next, count_impl = Some mapIterator_Count\<rparr>))"
    by (simp add: Count_def Counter_Count_def Map_def split: option.splits)
  then show ?thesis
    by (simp add: mapIterator_Count_def Map_def split: option.splits)
qed

lemma counts_as_pulled_Map:
  assumes "counts_as_pulled frm"
  shows "counts_as_pulled (Map frm (\<lambda>x. Some (f x)))"
proof -
  from assms obtain xs it1 it2 where d: "drains frm xs it1"
    and c: "Count frm = Some (int (length xs), it2)" and e: "exhausted it2"
    by (rule counts_as_pulledE)
  have "drains (Map frm (\<lambda>x. Some (f x))) (map f xs) (Map it1 (\<lambda>x. Some (f x)))"
    by (rule drains_Map [OF d]) simp
  moreover have "Count (Map frm (\<lambda>x. Some (f x))) =
      Some (int (length (map f xs)), Map it2 (\<lambda>x. Some (f x)))"
    by (simp add: Count_Map c)
  moreover have "exhausted (Map it2 (\<lambda>x. Some (f x)))" by (rule exhausted_Map [OF e])
  ultimately show ?thesis unfolding counts_as_pulled_def ToSlice_iff by blast
qed

subsection \<open>\<open>Take\<close>\<close>

lemma Count_Take:
  "Count (Take frm n) =
     (case (case count_impl frm of
              Some counter \<Rightarrow> Counter_Count counter frm
            | None \<Rightarrow> takeIterator_Count_loop frm n 0) of
        None \<Rightarrow> None
      | Some (count, frm') \<Rightarrow> Some (if n < count then n else count, Take frm' 0))"
proof -
  have "Count (Take frm n) =
     (case takeIterator_Count \<lparr>take_from = frm, take_num = n\<rparr> of
        None \<Rightarrow> None
      | Some (c, s') \<Rightarrow>
          Some (c, \<lparr>self = s', next_impl = takeIterator_Next, count_impl = Some takeIterator_Count\<rparr>))"
    by (simp add: Count_def Counter_Count_def Take_def split: option.splits)
  then show ?thesis
    by (simp add: takeIterator_Count_def Take_def split: option.splits)
qed

lemma Counter_Count_eq_Count:
  assumes "count_impl frm = Some counter"
  shows "Counter_Count counter frm = Count frm"
  using assms by (simp add: Count_def)

lemma drains_Take_of_drains:
  assumes "drains frm xs it1"
  shows "\<exists>X. drains (Take frm n) (take (nat n) xs) X"
  using assms
proof (induction arbitrary: n rule: drains.induct)
  case (drains_Nil it it')
  then have "\<exists>X. Next (Take it n) = Some (None, X)" by (simp add: Next_Take)
  then show ?case by (auto intro: drains.drains_Nil)
next
  case (drains_Cons it x it1 xs it')
  show ?case
  proof (cases "n \<le> 0")
    case True
    then have "Next (Take it n) = Some (None, Take it n)" by (simp add: Next_Take)
    with True show ?thesis by (auto intro!: drains.drains_Nil)
  next
    case False
    with drains_Cons.hyps(1) have n: "Next (Take it n) = Some (Some x, Take it1 (n - 1))"
      by (simp add: Next_Take)
    from drains_Cons.IH [of "n - 1"] obtain X where
      "drains (Take it1 (n - 1)) (take (nat (n - 1)) xs) X" by blast
    from drains.drains_Cons [OF n this] False show ?thesis
      by (auto simp: take_Cons' nat_diff_distrib)
  qed
qed

lemma drains_Take_pos_cases:
  assumes "drains (Take frm m) zs Y" and "0 < m"
  shows "(zs = [] \<and> (\<exists>frm1. Next frm = Some (None, frm1) \<and> Y = Take frm1 m)) \<or>
         (\<exists>z zs' frm1. zs = z # zs' \<and> Next frm = Some (Some z, frm1) \<and>
            drains (Take frm1 (m - 1)) zs' Y)"
  using assms(1)
proof (cases rule: drains.cases)
  case drains_Nil
  with assms(2) show ?thesis by (auto simp: Next_Take split: option.splits)
next
  case (drains_Cons z it1 zs')
  with assms(2) show ?thesis by (auto simp: Next_Take split: option.splits)
qed

lemma drains_Take_less:
  assumes "drains (Take frm (n + 1)) zs Y" and "0 \<le> n"
  shows "\<exists>X. drains (Take frm n) (take (nat n) zs) X"
  using assms
proof (induction zs arbitrary: frm n Y)
  case Nil
  from drains_Take_pos_cases [OF Nil.prems(1)] Nil.prems(2)
  obtain frm1 where n: "Next frm = Some (None, frm1)" by auto
  then have "\<exists>X. Next (Take frm n) = Some (None, X)" by (simp add: Next_Take)
  then show ?case by (auto intro: drains_Nil)
next
  case (Cons z zs)
  from drains_Take_pos_cases [OF Cons.prems(1)] Cons.prems(2)
  obtain frm1 where n: "Next frm = Some (Some z, frm1)" and d: "drains (Take frm1 n) zs Y"
    by auto
  show ?case
  proof (cases "n = 0")
    case True
    then have "Next (Take frm n) = Some (None, Take frm n)" by (simp add: Next_Take)
    with True show ?thesis by (auto intro!: drains_Nil)
  next
    case False
    with Cons.prems(2) have pos: "0 < n" by simp
    with n have n': "Next (Take frm n) = Some (Some z, Take frm1 (n - 1))"
      by (simp add: Next_Take)
    from Cons.IH [of frm1 "n - 1" Y] d pos obtain X where
      "drains (Take frm1 (n - 1)) (take (nat (n - 1)) zs) X" by auto
    from drains_Cons [OF n' this] pos show ?thesis
      by (auto simp: take_Cons' nat_diff_distrib)
  qed
qed

lemma takeIterator_Count_loop_bounded:
  assumes "drains (Take frm (n - c + 1)) zs Y" and "c \<le> n"
  shows "\<exists>frm'. takeIterator_Count_loop frm n c =
           Some (c + int (length (take (nat (n - c)) zs)), frm')"
  using assms
proof (induction zs arbitrary: frm c Y)
  case Nil
  from drains_Take_pos_cases [OF Nil.prems(1)] Nil.prems(2)
  obtain frm1 where n: "Next frm = Some (None, frm1)" by auto
  then show ?case by (subst takeIterator_Count_loop.simps) simp
next
  case (Cons z zs)
  from drains_Take_pos_cases [OF Cons.prems(1)] Cons.prems(2)
  obtain frm1 where n: "Next frm = Some (Some z, frm1)" and d: "drains (Take frm1 (n - c)) zs Y"
    by auto
  show ?case
  proof (cases "c < n")
    case True
    from d have "drains (Take frm1 (n - (c + 1) + 1)) zs Y" by (simp add: algebra_simps)
    from Cons.IH [OF this] True obtain frm' where
      "takeIterator_Count_loop frm1 n (c + 1) =
         Some (c + 1 + int (length (take (nat (n - (c + 1))) zs)), frm')" by auto
    moreover have "takeIterator_Count_loop frm n c = takeIterator_Count_loop frm1 n (c + 1)"
      by (subst takeIterator_Count_loop.simps) (simp add: n True)
    moreover have "int (length (take (nat (n - c)) (z # zs))) =
        1 + int (length (take (nat (n - (c + 1))) zs))"
      using True by (simp add: take_Cons' nat_diff_distrib algebra_simps)
    ultimately show ?thesis by simp
  next
    case False
    with Cons.prems(2) have "c = n" by simp
    then show ?thesis by (subst takeIterator_Count_loop.simps) (simp add: n)
  qed
qed

lemma counts_as_pulled_Take_plain:
  assumes "count_impl frm = None" and "0 \<le> n" and "drains (Take frm (n + 1)) zs Y"
  shows "counts_as_pulled (Take frm n)"
proof -
  from drains_Take_less [OF assms(3,2)] obtain X where
    d: "drains (Take frm n) (take (nat n) zs) X" by blast
  from takeIterator_Count_loop_bounded [of frm n 0 zs Y] assms(2,3) obtain frm' where
    "takeIterator_Count_loop frm n 0 = Some (int (length (take (nat n) zs)), frm')" by auto
  moreover have "\<not> n < int (length (take (nat n) zs))" using assms(2) by simp
  ultimately have "Count (Take frm n) = Some (int (length (take (nat n) zs)), Take frm' 0)"
    using assms(1) by (simp add: Count_Take)
  moreover have "exhausted (Take frm' 0)" by (rule exhausted_Take_nonpos) simp
  ultimately show ?thesis using d unfolding counts_as_pulled_def ToSlice_iff by blast
qed

lemma counts_as_pulled_Take:
  assumes "counts_as_pulled frm" and "0 \<le> n"
  shows "counts_as_pulled (Take frm n)"
proof (cases "count_impl frm")
  case None
  from assms(1) obtain xs it1 where "drains frm xs it1" by (auto elim: counts_as_pulledE)
  from drains_Take_of_drains [OF this, of "n + 1"] obtain Y where
    "drains (Take frm (n + 1)) (take (nat (n + 1)) xs) Y" by blast
  from counts_as_pulled_Take_plain [OF None assms(2) this] show ?thesis .
next
  case (Some counter)
  from assms(1) obtain xs it1 it2 where d: "drains frm xs it1"
    and c: "Count frm = Some (int (length xs), it2)" and e: "exhausted it2"
    by (rule counts_as_pulledE)
  from drains_Take_of_drains [OF d, of n] obtain X where
    dt: "drains (Take frm n) (take (nat n) xs) X" by blast
  have "Count (Take frm n) =
      Some (if n < int (length xs) then n else int (length xs), Take it2 0)"
    by (simp add: Count_Take Some Counter_Count_eq_Count [OF Some] c)
  moreover have "(if n < int (length xs) then n else int (length xs)) =
      int (length (take (nat n) xs))"
    using assms(2) by (auto simp: min_def)
  moreover have "exhausted (Take it2 0)" by (rule exhausted_Take_nonpos) simp
  ultimately show ?thesis using dt unfolding counts_as_pulled_def ToSlice_iff by auto
qed

subsection \<open>\<open>Flatten\<close>\<close>

lemma drains_FlattenC_head:
  assumes "drains head ys head'" and "drains (FlattenC_at frm None) zs it'"
  shows "drains (FlattenC_at frm (Some head)) (ys @ zs) it'"
  using assms
proof (induction rule: drains.induct)
  case (drains_Nil h h')
  then have "Next (FlattenC_at frm (Some h)) = Next (FlattenC_at frm None)"
    by (simp add: Next_FlattenC_at_Some)
  from drains_cong_Next [OF this, THEN iffD2, OF drains_Nil.prems] show ?case by simp
next
  case (drains_Cons h y h1 ys h')
  then have "Next (FlattenC_at frm (Some h)) = Some (Some y, FlattenC_at frm (Some h1))"
    by (simp add: Next_FlattenC_at_Some)
  with drains_Cons show ?case by (auto intro: drains.drains_Cons)
qed

lemma drains_FlattenC:
  assumes "drains frm items frm'"
    and "list_all2 (\<lambda>item ys. \<exists>head'. drains item ys head') items yss"
  shows "drains (FlattenC_at frm None) (concat yss) (FlattenC_at frm' None)"
  using assms
proof (induction arbitrary: yss rule: drains.induct)
  case (drains_Nil it it')
  then show ?case by (auto intro!: drains.drains_Nil simp: Next_FlattenC_at_None)
next
  case (drains_Cons it item it1 items it')
  from drains_Cons.prems obtain ys yss' head' where
    yss: "yss = ys # yss'" and h: "drains item ys head'" and
    rest: "list_all2 (\<lambda>item ys. \<exists>head'. drains item ys head') items yss'"
    by (auto simp: list_all2_Cons1)
  from drains_Cons.IH [OF rest]
  have a: "drains (FlattenC_at it1 (Some item)) (ys @ concat yss') (FlattenC_at it' None)"
    by (rule drains_FlattenC_head [OF h])
  have "Next (FlattenC_at it None) = Next (FlattenC_at it1 (Some item))"
    using drains_Cons.hyps(1) by (simp add: Next_FlattenC_at_None)
  from drains_cong_Next [OF this, THEN iffD2, OF a] show ?case unfolding yss by simp
qed

lemma Count_FlattenC_at:
  "Count (FlattenC_at frm head) =
     (case Sum_it (Map frm (\<lambda>item. map_option fst (Count item))) of
        None \<Rightarrow> None
      | Some (count, fromCounts') \<Rightarrow>
          (case head of
             None \<Rightarrow> Some (count, FlattenC_at (map_from (self fromCounts')) None)
           | Some h \<Rightarrow>
               (case Count h of
                  None \<Rightarrow> None
                | Some (n, h') \<Rightarrow>
                    Some (count + n, FlattenC_at (map_from (self fromCounts')) (Some h')))))"
proof -
  have "Count (FlattenC_at frm head) =
     (case flattenIteratorC_Count \<lparr>flattenC_from = frm, flattenC_head = head\<rparr> of
        None \<Rightarrow> None
      | Some (c, s') \<Rightarrow>
          Some (c, \<lparr>self = s', next_impl = flattenIteratorC_Next,
                    count_impl = Some flattenIteratorC_Count\<rparr>))"
    by (simp add: Count_def Counter_Count_def FlattenC_at_def split: option.splits)
  then show ?thesis
    by (simp add: flattenIteratorC_Count_def FlattenC_at_def Let_def split: option.splits)
qed

lemma foldl_add_sum_list: "foldl (\<lambda>accum item. accum + item) (a :: int) cs = a + sum_list cs"
  by (induction cs arbitrary: a) (simp_all add: algebra_simps)

lemma inner_counts:
  assumes "list_all counts_as_pulled inners"
  shows "\<exists>yss. list_all2 (\<lambda>item ys. \<exists>head'. drains item ys head') inners yss \<and>
           map (\<lambda>item. map_option fst (Count item)) inners = map Some (map (\<lambda>ys. int (length ys)) yss)"
  using assms
proof (induction inners)
  case Nil
  then show ?case by simp
next
  case (Cons i inners)
  then obtain yss where yss: "list_all2 (\<lambda>item ys. \<exists>head'. drains item ys head') inners yss"
    "map (\<lambda>item. map_option fst (Count item)) inners = map Some (map (\<lambda>ys. int (length ys)) yss)"
    by auto
  from Cons.prems have "counts_as_pulled i" by simp
  then obtain ys it1 it2 where "drains i ys it1" "Count i = Some (int (length ys), it2)"
    by (rule counts_as_pulledE)
  with yss have "list_all2 (\<lambda>item ys. \<exists>head'. drains item ys head') (i # inners) (ys # yss) \<and>
      map (\<lambda>item. map_option fst (Count item)) (i # inners) =
        map Some (map (\<lambda>ys. int (length ys)) (ys # yss))"
    by auto
  then show ?case by blast
qed

lemma counts_as_pulled_FlattenC:
  assumes d: "drains outer inners outer'" and e: "exhausted outer'"
    and i: "list_all counts_as_pulled inners"
    and h: "case head of None \<Rightarrow> True | Some h \<Rightarrow> counts_as_pulled h"
  shows "counts_as_pulled (FlattenC_at outer head)"
proof -
  let ?G = "\<lambda>item. map_option fst (Count item)"
  from inner_counts [OF i] obtain yss where
    yss: "list_all2 (\<lambda>item ys. \<exists>head'. drains item ys head') inners yss"
    and cs: "map ?G inners = map Some (map (\<lambda>ys. int (length ys)) yss)"
    by blast
  from drains_FlattenC [OF d yss]
  have dn: "drains (FlattenC_at outer None) (concat yss) (FlattenC_at outer' None)" .
  from drains_Map [OF d cs]
  have "drains (Map outer ?G) (map (\<lambda>ys. int (length ys)) yss) (Map outer' ?G)" .
  from Reduce_drains [OF this, of "\<lambda>accum item. accum + item" 0]
  have "Sum_it (Map outer ?G) = Some (sum_list (map (\<lambda>ys. int (length ys)) yss), Map outer' ?G)"
    by (simp add: Sum_it_def foldl_add_sum_list)
  moreover have "sum_list (map (\<lambda>ys. int (length ys)) yss) = int (length (concat yss))"
    by (induction yss) simp_all
  ultimately have s: "Sum_it (Map outer ?G) = Some (int (length (concat yss)), Map outer' ?G)"
    by simp
  have m: "map_from (self (Map outer' ?G)) = outer'" by (simp add: Map_def)
  show ?thesis
  proof (cases head)
    case None
    then have "Count (FlattenC_at outer head) =
        Some (int (length (concat yss)), FlattenC_at outer' None)"
      by (simp add: Count_FlattenC_at s m)
    moreover have "exhausted (FlattenC_at outer' None)" by (rule exhausted_FlattenC_at [OF e])
    ultimately show ?thesis using dn None unfolding counts_as_pulled_def ToSlice_iff by blast
  next
    case (Some hd)
    with h have "counts_as_pulled hd" by simp
    then obtain hs h1 h2 where hd: "drains hd hs h1" and hc: "Count hd = Some (int (length hs), h2)"
      and he: "exhausted h2"
      by (rule counts_as_pulledE)
    from drains_FlattenC_head [OF hd dn]
    have "drains (FlattenC_at outer (Some hd)) (hs @ concat yss) (FlattenC_at outer' None)" .
    moreover have "Count (FlattenC_at outer head) =
        Some (int (length (hs @ concat yss)), FlattenC_at outer' (Some h2))"
      by (simp add: Count_FlattenC_at s m Some hc)
    moreover have "exhausted (FlattenC_at outer' (Some h2))"
    proof -
      from he obtain h3 where "Next h2 = Some (None, h3)" by (rule exhausted_Next)
      moreover from e obtain o2 where "Next outer' = Some (None, o2)" "exhausted o2"
        by (rule exhausted_Next)
      ultimately have "Next (FlattenC_at outer' (Some h2)) = Some (None, FlattenC_at o2 None)"
        by (simp add: Next_FlattenC_at_Some Next_FlattenC_at_None)
      moreover have "exhausted (FlattenC_at o2 None)"
        by (rule exhausted_FlattenC_at [OF \<open>exhausted o2\<close>])
      ultimately show ?thesis by (rule exhausted_step)
    qed
    ultimately show ?thesis using Some unfolding counts_as_pulled_def ToSlice_iff by blast
  qed
qed

subsection \<open>The claims about \<open>Count\<close>\<close>

lemma counts_as_pulled_FromSlice: "counts_as_pulled (FromSlice xs)"
  by (rule counts_as_pulled_plain [OF _ drains_FromSlice exhausted_FromSlice_Nil])
    (simp add: FromSlice_def)

lemma Count_loop_Repeat: "Count_loop (Repeat x) c = None"
proof -
  have "it \<noteq> Repeat x" if "Count_loop it c = Some res" for it :: "('a repeatIterator, 'a) Iterator" and c res
    using that
  proof (induction it c res rule: Count_loop.raw_induct [rotated 1, consumes 1, case_names step])
    case (step loop it c res)
    show ?case
    proof
      assume "it = Repeat x"
      with step(2) have "loop (Repeat x) (c + 1) = Some res" by (simp add: Next_Repeat)
      from step(1) [OF this] show False by simp
    qed
  qed
  then show ?thesis by (cases "Count_loop (Repeat x) c") auto
qed

text \<open>
  Claim C1, with the conditions it needs. An iterator counts as pulled when \<open>Count\<close> on
  it returns the number of items that pulling it, in the same state, until it reports
  false yields, and leaves it exhausted. An iterator that is no \<open>Counter\<close>, ends, and is
  exhausted then, counts as pulled: \<open>Count\<close> falls back to pulling. \<open>Map\<close> (of a function
  that returns) over an upstream that counts as pulled counts as pulled; so does \<open>Take\<close>
  with an allowance \<open>n \<ge> 0\<close>; and so does a flatten iterator in any state, when its outer
  iterator ends and is exhausted then, and the inner iterators still to come and the
  inner iterator being read count as pulled. For \<open>Take\<close> over an upstream that is no
  \<open>Counter\<close> the upstream need not end: it is enough that draining \<open>Take\<close> with one more
  allowance ends, that is, that the first \<open>n + 1\<close> pulls of the upstream return. The
  iterators are taken in any state, so a prefix may have been pulled before.
\<close>

theorem Count_as_pulled:
  "(count_impl it = None \<longrightarrow> ToSlice it = Some (xs, it1) \<longrightarrow> exhausted it1 \<longrightarrow>
      counts_as_pulled it) \<and>
   (counts_as_pulled frm \<longrightarrow> counts_as_pulled (Map frm (\<lambda>x. Some (f x)))) \<and>
   (0 \<le> n \<longrightarrow> counts_as_pulled frm \<longrightarrow> counts_as_pulled (Take frm n)) \<and>
   (0 \<le> n \<longrightarrow> count_impl frm = None \<longrightarrow> ToSlice (Take frm (n + 1)) = Some (zs, Y) \<longrightarrow>
      counts_as_pulled (Take frm n)) \<and>
   (ToSlice outer = Some (inners, outer') \<longrightarrow> exhausted outer' \<longrightarrow>
      list_all counts_as_pulled inners \<longrightarrow>
      (case head of None \<Rightarrow> True | Some h \<Rightarrow> counts_as_pulled h) \<longrightarrow>
      counts_as_pulled (FlattenC_at outer head))"
proof (intro conjI impI)
  assume "count_impl it = None" "ToSlice it = Some (xs, it1)" "exhausted it1"
  then show "counts_as_pulled it" by (simp add: ToSlice_iff counts_as_pulled_plain)
next
  assume "counts_as_pulled frm"
  then show "counts_as_pulled (Map frm (\<lambda>x. Some (f x)))" by (rule counts_as_pulled_Map)
next
  assume "0 \<le> n" "counts_as_pulled frm"
  then show "counts_as_pulled (Take frm n)" by (simp add: counts_as_pulled_Take)
next
  assume "0 \<le> n" "count_impl frm = None" "ToSlice (Take frm (n + 1)) = Some (zs, Y)"
  then show "counts_as_pulled (Take frm n)"
    by (simp add: ToSlice_iff counts_as_pulled_Take_plain)
next
  assume "ToSlice outer = Some (inners, outer')" "exhausted outer'"
    "list_all counts_as_pulled inners"
    "case head of None \<Rightarrow> True | Some h \<Rightarrow> counts_as_pulled h"
  then show "counts_as_pulled (FlattenC_at outer head)"
    by (simp add: ToSlice_iff counts_as_pulled_FlattenC)
qed

theorem Count_as_pulled_witness:
  "counts_as_pulled (FromSlice [1, 2, 3 :: int]) \<and>
   counts_as_pulled (Map (FromSlice [1, 2, 3 :: int]) (\<lambda>i. Some (i * 2))) \<and>
   counts_as_pulled (Take (Map (FromSlice [1, 2, 3 :: int]) (\<lambda>i. Some (i * 2))) 2) \<and>
   counts_as_pulled (Take (Repeat (1337 :: int)) 10) \<and>
   Next (FlattenC (FromSlice [FromSlice [0, 1, 2 :: int], FromSlice [100], FromSlice [10, 11]])) =
     Some (Some 0, FlattenC_at (FromSlice [FromSlice [100], FromSlice [10, 11]]) (Some (FromSlice [1, 2]))) \<and>
   counts_as_pulled
     (FlattenC_at (FromSlice [FromSlice [100], FromSlice [10, 11 :: int]]) (Some (FromSlice [1, 2])))"
proof -
  note p = Count_as_pulled [THEN conjunct1, rule_format]
  note m = Count_as_pulled [THEN conjunct2, THEN conjunct1, rule_format]
  note t = Count_as_pulled [THEN conjunct2, THEN conjunct2, THEN conjunct1, rule_format]
  note tp = Count_as_pulled [THEN conjunct2, THEN conjunct2, THEN conjunct2, THEN conjunct1,
      rule_format]
  note fl = Count_as_pulled [THEN conjunct2, THEN conjunct2, THEN conjunct2, THEN conjunct2,
      rule_format]
  have "ToSlice (FromSlice [1, 2, 3 :: int]) = Some ([1, 2, 3], FromSlice [])"
    by (rule ToSlice_of_FromSlice)
  then have s: "counts_as_pulled (FromSlice [1, 2, 3 :: int])"
  proof (rule p [rotated])
    show "exhausted (FromSlice ([] :: int list))" by (rule exhausted_FromSlice_Nil)
    show "count_impl (FromSlice [1, 2, 3 :: int]) = None" by (simp add: FromSlice_def)
  qed
  have a: "counts_as_pulled (Map (FromSlice [1, 2, 3 :: int]) (\<lambda>i. Some (i * 2)))"
    by (rule m [OF s])
  have b: "counts_as_pulled (Take (Map (FromSlice [1, 2, 3 :: int]) (\<lambda>i. Some (i * 2))) 2)"
    by (rule t [OF _ a]) simp
  have "pulls (nat 11) (Repeat (1337 :: int)) = Some (map Some (replicate 11 1337), Repeat 1337)"
    by (simp add: eval_nat_numeral Next_Repeat)
  from drains_Take_pulls [OF this]
  have "ToSlice (Take (Repeat (1337 :: int)) (10 + 1)) =
      Some (replicate 11 1337, Take (Repeat 1337) 0)"
    by (simp add: ToSlice_iff)
  then have c: "counts_as_pulled (Take (Repeat (1337 :: int)) 10)"
    by (rule tp [rotated 2]) (simp_all add: Repeat_def)
  have d: "Next (FlattenC (FromSlice [FromSlice [0, 1, 2 :: int], FromSlice [100], FromSlice [10, 11]])) =
     Some (Some 0, FlattenC_at (FromSlice [FromSlice [100], FromSlice [10, 11]]) (Some (FromSlice [1, 2])))"
    by (simp add: FlattenC_eq_at Next_FlattenC_at_None Next_FlattenC_at_Some Next_FromSlice_Cons)
  have "ToSlice (FromSlice [FromSlice [100], FromSlice [10, 11 :: int]]) =
      Some ([FromSlice [100], FromSlice [10, 11]], FromSlice [])"
    by (rule ToSlice_of_FromSlice)
  then have e: "counts_as_pulled
     (FlattenC_at (FromSlice [FromSlice [100], FromSlice [10, 11 :: int]]) (Some (FromSlice [1, 2])))"
    by (rule fl) (simp_all add: exhausted_FromSlice_Nil counts_as_pulled_FromSlice)
  from s a b c d e show ?thesis by (intro conjI)
qed

text \<open>
  As the claim states it, for every such iterator, it fails. \<open>Take\<close> hands \<open>Count\<close> over to
  an upstream that is a \<open>Counter\<close>, whatever its own allowance: over \<open>Map\<close> of the endless
  \<open>Repeat\<close>, pulling \<open>Take\<close> with allowance 3 yields three items and ends, but \<open>Count\<close>
  never returns.
\<close>

theorem Count_Take_endless_counterexample:
  "ToSlice (Take (Map (Repeat (7 :: int)) Some) 3) =
     Some ([7, 7, 7], Take (Map (Repeat 7) Some) 0) \<and>
   Count (Take (Map (Repeat (7 :: int)) Some) 3) = None"
proof -
  have "pulls 3 (Map (Repeat (7 :: int)) Some) = Some (map Some [7, 7, 7], Map (Repeat 7) Some)"
    by (simp add: numeral_3_eq_3 Next_Map Next_Repeat)
  from drains_Take_pulls [OF this]
  have a: "ToSlice (Take (Map (Repeat (7 :: int)) Some) 3) =
      Some ([7, 7, 7], Take (Map (Repeat 7) Some) 0)"
    by (simp add: ToSlice_iff)
  have "count_impl (Repeat (7 :: int)) = None" by (simp add: Repeat_def)
  then have "Count (Repeat (7 :: int)) = None"
    by (simp add: Count_def Count_loop_Repeat)
  then have "Count (Map (Repeat (7 :: int)) Some) = None" by (simp add: Count_Map)
  moreover have "count_impl (Map (Repeat (7 :: int)) Some) = Some mapIterator_Count"
    by (simp add: Map_def)
  ultimately have b: "Count (Take (Map (Repeat (7 :: int)) Some) 3) = None"
    by (simp add: Count_Take Counter_Count_eq_Count)
  from a b show ?thesis ..
qed

text \<open>
  The counting loop of \<open>takeIterator.Count\<close>, over an upstream that is no \<open>Counter\<close> and
  whose first \<open>n + 1\<close> pulls yield items: \<open>Count\<close> on \<open>Take\<close> with allowance \<open>n \<ge> 0\<close> returns
  \<open>n\<close> and leaves the upstream as \<open>n + 1\<close> pulls left it.
\<close>

lemma takeIterator_Count_loop_pulls:
  assumes "pulls (Suc k) frm = Some (map Some xs, frm')" and "n = c + int k"
  shows "takeIterator_Count_loop frm n c = Some (n, frm')"
  using assms
proof (induction k arbitrary: frm c xs)
  case 0
  then obtain x where "Next frm = Some (Some x, frm')"
    by (cases xs) (auto split: option.splits)
  with 0 show ?case by (subst takeIterator_Count_loop.simps) simp
next
  case (Suc k)
  from Suc.prems(1) obtain r it1 rs where
    n: "Next frm = Some (r, it1)" and p: "pulls (Suc k) it1 = Some (rs, frm')" and
    rs: "r # rs = map Some xs"
    by (auto split: option.splits)
  from rs obtain x xs' where xs: "r = Some x" "rs = map Some xs'" by (cases xs) auto
  from Suc.IH [of it1 xs' "c + 1"] p xs Suc.prems(2)
  have "takeIterator_Count_loop it1 n (c + 1) = Some (n, frm')" by simp
  moreover have "takeIterator_Count_loop frm n c = takeIterator_Count_loop it1 n (c + 1)"
    using n xs Suc.prems(2) by (subst takeIterator_Count_loop.simps) simp
  ultimately show ?case by simp
qed

lemma Count_Take_pulls_one_more:
  assumes "count_impl frm = None" and "0 \<le> n"
    and "pulls (Suc (nat n)) frm = Some (map Some xs, frm')"
  shows "Count (Take frm n) = Some (n, Take frm' 0)"
  using takeIterator_Count_loop_pulls [OF assms(3), of n 0] assms(1,2)
  by (simp add: Count_Take)

text \<open>
  Claim C2. The counting loop of \<open>takeIterator.Count\<close> pulls before it tests the
  allowance, so over an upstream that is no \<open>Counter\<close> and holds more items than the
  allowance, one item more than the allowance is taken from the upstream. A probe in
  front of a slice of three items shows it: \<open>Count\<close> on \<open>Take\<close> with allowance 1 returns 1
  after two pulls, leaving one item in the slice; with allowance 0 it returns 0 after
  one pull. The claim allows at most one pull and none.
\<close>

theorem Count_Take_pulls_past_allowance:
  "Count (Take (Probe (FromSlice [1, 2, 3 :: int])) 1) =
     Some (1, Take (Probed (FromSlice [3]) 2) 0) \<and>
   Count (Take (Probe (FromSlice [1, 2, 3 :: int])) 0) =
     Some (0, Take (Probed (FromSlice [2, 3]) 1) 0)"
proof -
  have c: "count_impl (Probe (FromSlice [1, 2, 3 :: int])) = None"
    by (simp add: Probe_def Probed_def)
  have "pulls (Suc (nat 1)) (Probe (FromSlice [1, 2, 3 :: int])) =
      Some (map Some [1, 2], Probed (FromSlice [3]) 2)"
    by (simp add: Probe_def Next_Probed Next_FromSlice_Cons numeral_2_eq_2)
  from Count_Take_pulls_one_more [OF c _ this]
  have a: "Count (Take (Probe (FromSlice [1, 2, 3 :: int])) 1) =
      Some (1, Take (Probed (FromSlice [3]) 2) 0)" by simp
  have "pulls (Suc (nat 0)) (Probe (FromSlice [1, 2, 3 :: int])) =
      Some (map Some [1], Probed (FromSlice [2, 3]) 1)"
    by (simp add: Probe_def Next_Probed Next_FromSlice_Cons)
  from Count_Take_pulls_one_more [OF c _ this]
  have b: "Count (Take (Probe (FromSlice [1, 2, 3 :: int])) 0) =
      Some (0, Take (Probed (FromSlice [2, 3]) 1) 0)" by simp
  from a b show ?thesis ..
qed

text \<open>With a negative allowance the clamp returns the allowance itself.\<close>

lemma Count_Take_negative:
  "Count (Take (FromSlice [1, 2, 3 :: int]) (- 1)) = Some (- 1, Take (FromSlice [2, 3]) 0)"
proof -
  have "takeIterator_Count_loop (FromSlice [1, 2, 3 :: int]) (- 1) 0 = Some (0, FromSlice [2, 3])"
    by (subst takeIterator_Count_loop.simps) (simp add: Next_FromSlice_Cons)
  then show ?thesis by (simp add: Count_Take FromSlice_def [symmetric]) (simp add: FromSlice_def)
qed

section \<open>The bridge to a goroutine\<close>



















lemma run_append:
  "run (es @ fs) b = (case run es b of None \<Rightarrow> None | Some b' \<Rightarrow> run fs b')"
  by (induction es arbitrary: b) (auto split: option.splits)














end
